theory Spec2Isabelle
  imports Main
begin

section \<open>The world the launchers run in\<close>

text \<open>
  The two launcher scripts \<^verbatim>\<open>start_system.py\<close> and \<^verbatim>\<open>run_dashboard.py\<close> start an API
  server (the backend) and a Streamlit dashboard (the frontend) as child processes. Both
  scripts are sequential programs whose behaviour is decided by what the outside world
  answers: the outcome of each health request, whether \<^verbatim>\<open>Popen\<close> raises, whether a child has
  exited when it is polled, whether it exits within the five seconds of a bounded wait, and
  whether a signal is delivered while the script sleeps.

  The model is explicit state passing. The state holds the module's two global handles,
  the status of each child process, the list of library calls issued so far, and the
  lines printed. The answers of the world are the fields of an environment record.
\<close>

datatype pname = Backend | Frontend

text \<open>
  A child is \<open>Alive\<close> after a successful \<^verbatim>\<open>Popen\<close>; \<open>Dead\<close> when it has been
  killed but its exit status has not been collected (the \<^verbatim>\<open>returncode\<close> of the handle is
  still \<^verbatim>\<open>None\<close>); \<open>Reaped\<close> once \<^verbatim>\<open>wait\<close> or \<^verbatim>\<open>poll\<close> has collected the exit status.
\<close>

datatype pstatus = NotSpawned | Alive | Dead | Reaped

datatype call =
    Popen pname
  | Terminate pname
  | Wait pname nat
  | WaitForever pname
  | Kill pname
  | Poll pname
  | Sleep nat
  | HttpGet nat

datatype probe_outcome = ConnectionError | Timeout | Response int

datatype signum = SIGINT | SIGTERM

datatype abrupt = SystemExit int | KeyboardInterrupt | KilledBySignal

record env =
  probe :: "nat \<Rightarrow> probe_outcome"
  spawn :: "pname \<Rightarrow> string option"
  exits_in_grace :: "pname \<Rightarrow> bool"
  found_exited :: "pname \<Rightarrow> nat \<Rightarrow> bool"
  signal_at :: "nat \<Rightarrow> signum option"
  dashboard_wait :: "abrupt option option"

text \<open>
  \<open>probe env k\<close> is the outcome of the \<open>k\<close>-th health request issued (counting from 0);
  \<open>spawn env p = Some msg\<close> means that \<^verbatim>\<open>Popen\<close> for \<open>p\<close> raises an exception whose text is
  \<open>msg\<close>; \<open>exits_in_grace env p\<close> says whether \<^verbatim>\<open>wait(timeout=5)\<close> on a live \<open>p\<close> returns
  rather than raising \<^verbatim>\<open>TimeoutExpired\<close>; \<open>found_exited env p t\<close> says whether a poll of a
  live \<open>p\<close> made after \<open>t\<close> sleeps finds it exited; \<open>signal_at env t\<close> is the signal
  delivered during the \<open>t\<close>-th \<^verbatim>\<open>time.sleep\<close> (counting from 0), if any;
  \<open>dashboard_wait env\<close> is what the unbounded \<^verbatim>\<open>wait()\<close> of \<^verbatim>\<open>run_dashboard.py\<close> does:
  \<open>None\<close> it blocks for ever, \<open>Some None\<close> it returns, \<open>Some (Some e)\<close> it is interrupted.
  Signals are delivered while the script sleeps, which is where it spends its time.
\<close>

record world =
  calls :: "call list"
  stdout :: "string list"
  status :: "pname \<Rightarrow> pstatus"

record state = world +
  api_process :: "pname option"
  streamlit_process :: "pname option"

definition n_gets :: "call list \<Rightarrow> nat" where
  "n_gets cs = length (filter (\<lambda>c. case c of HttpGet _ \<Rightarrow> True | _ \<Rightarrow> False) cs)"

definition n_sleeps :: "call list \<Rightarrow> nat" where
  "n_sleeps cs = length (filter (\<lambda>c. case c of Sleep _ \<Rightarrow> True | _ \<Rightarrow> False) cs)"

definition log_call :: "call \<Rightarrow> 'a world_scheme \<Rightarrow> 'a world_scheme" where
  "log_call c s = s\<lparr>calls := calls s @ [c]\<rparr>"

definition print :: "string \<Rightarrow> 'a world_scheme \<Rightarrow> 'a world_scheme" where
  "print msg s = s\<lparr>stdout := stdout s @ [msg]\<rparr>"

definition set_status :: "pname \<Rightarrow> pstatus \<Rightarrow> 'a world_scheme \<Rightarrow> 'a world_scheme" where
  "set_status p st s = s\<lparr>status := (status s)(p := st)\<rparr>"

subsection \<open>The library calls\<close>

text \<open>\<^verbatim>\<open>subprocess.Popen(...)\<close>: \<open>Inl msg\<close> when it raises, otherwise the handle.\<close>

definition popen :: "env \<Rightarrow> pname \<Rightarrow> 'a world_scheme \<Rightarrow> (string + pname) \<times> 'a world_scheme" where
  "popen e p s =
     (case spawn e p of
        Some msg \<Rightarrow> (Inl msg, log_call (Popen p) s)
      | None \<Rightarrow> (Inr p, set_status p Alive (log_call (Popen p) s)))"

text \<open>\<^verbatim>\<open>p.terminate()\<close> sends the request; what the child does shows at the next wait.\<close>

definition terminate :: "pname \<Rightarrow> 'a world_scheme \<Rightarrow> 'a world_scheme" where
  "terminate p s = log_call (Terminate p) s"

text \<open>
  \<^verbatim>\<open>p.wait(timeout=t)\<close>: \<open>True\<close> when it returns (the exit status is collected), \<open>False\<close>
  when it raises \<^verbatim>\<open>TimeoutExpired\<close>.
\<close>

definition wait :: "env \<Rightarrow> pname \<Rightarrow> nat \<Rightarrow> 'a world_scheme \<Rightarrow> bool \<times> 'a world_scheme" where
  "wait e p t s =
     (if status s p = Alive \<and> \<not> exits_in_grace e p
      then (False, log_call (Wait p t) s)
      else (True, set_status p Reaped (log_call (Wait p t) s)))"

text \<open>\<^verbatim>\<open>p.kill()\<close> ends a live child and collects nothing.\<close>

definition kill :: "pname \<Rightarrow> 'a world_scheme \<Rightarrow> 'a world_scheme" where
  "kill p s =
     (if status s p = Alive then set_status p Dead (log_call (Kill p) s)
      else log_call (Kill p) s)"

text \<open>\<^verbatim>\<open>p.poll() is not None\<close>.\<close>

definition poll :: "env \<Rightarrow> pname \<Rightarrow> 'a world_scheme \<Rightarrow> bool \<times> 'a world_scheme" where
  "poll e p s =
     (if status s p = Alive \<and> \<not> found_exited e p (n_sleeps (calls s))
      then (False, log_call (Poll p) s)
      else (True, set_status p Reaped (log_call (Poll p) s)))"

text \<open>Decimal digits of a number, for the formatted progress lines.\<close>

fun str_nat :: "nat \<Rightarrow> string" where
  "str_nat n =
     (if n < 10 then [char_of (48 + n)]
      else str_nat (n div 10) @ [char_of (48 + n mod 10)])"

declare str_nat.simps [simp del]

section \<open>start\_system.py\<close>

text \<open>
  Printed lines are kept without the pictograph that starts them and without blank
  lines; the text is the source's.
\<close>

text \<open>
  Lines 23 to 28 and 30 to 35 of \<^verbatim>\<open>cleanup\<close> are the same block, once for each global
  handle: terminate, wait five seconds, kill when the wait times out.
\<close>

definition stop_handle :: "env \<Rightarrow> pname option \<Rightarrow> state \<Rightarrow> state" where
  "stop_handle e h s =
     (case h of
        None \<Rightarrow> s
      | Some p \<Rightarrow>
          (case wait e p 5 (terminate p s) of
             (True, s1) \<Rightarrow> s1
           | (False, s1) \<Rightarrow> kill p s1))"

definition cleanup :: "env \<Rightarrow> state \<Rightarrow> state" where
  "cleanup e s =
     (let s1 = print ''Shutting down services...'' s;
          s2 = stop_handle e (streamlit_process s1) s1;
          s3 = stop_handle e (api_process s2) s2
      in print ''All services stopped'' s3)"

definition signal_handler :: "env \<Rightarrow> signum \<Rightarrow> state \<Rightarrow> (abrupt + unit) \<times> state" where
  "signal_handler e signum s = (Inl (SystemExit 0), cleanup e s)"

text \<open>
  \<^verbatim>\<open>time.sleep\<close> once \<^verbatim>\<open>main\<close> has installed \<^verbatim>\<open>signal_handler\<close> for both signals: a signal
  delivered during the sleep runs the handler, whose \<^verbatim>\<open>sys.exit(0)\<close> is raised at the
  sleep.
\<close>

definition sleep :: "env \<Rightarrow> nat \<Rightarrow> state \<Rightarrow> (abrupt + unit) \<times> state" where
  "sleep e secs s =
     (case signal_at e (n_sleeps (calls s)) of
        None \<Rightarrow> (Inr (), log_call (Sleep secs) s)
      | Some signum \<Rightarrow> signal_handler e signum (log_call (Sleep secs) s))"

definition check_api_running :: "env \<Rightarrow> 'a world_scheme \<Rightarrow> bool \<times> 'a world_scheme" where
  "check_api_running e s =
     (case probe e (n_gets (calls s)) of
        Response status_code \<Rightarrow> (status_code = 200, log_call (HttpGet 3) s)
      | _ \<Rightarrow> (False, log_call (HttpGet 3) s))"

text \<open>
  The loop of \<^verbatim>\<open>start_api\<close>, lines 66 to 71: \<open>n\<close> iterations are left and \<open>i\<close> is the
  loop variable. \<open>Inr False\<close> is the loop running out.
\<close>

fun start_api_loop :: "env \<Rightarrow> nat \<Rightarrow> nat \<Rightarrow> state \<Rightarrow> (abrupt + bool) \<times> state" where
  "start_api_loop e 0 i s = (Inr False, s)"
| "start_api_loop e (Suc n) i s =
     (case sleep e 1 s of
        (Inl x, s1) \<Rightarrow> (Inl x, s1)
      | (Inr u, s1) \<Rightarrow>
          (case check_api_running e s1 of
             (True, s2) \<Rightarrow>
               (Inr True, print ''API server started successfully on http://localhost:8001'' s2)
           | (False, s2) \<Rightarrow>
               start_api_loop e n (i + 1)
                 (print (''   Checking... ('' @ str_nat (i + 1) @ ''/15)'') s2)))"

definition start_api :: "env \<Rightarrow> state \<Rightarrow> (abrupt + bool) \<times> state" where
  "start_api e s =
     (let s0 = print ''Starting API server...'' s in
      case popen e Backend s0 of
        (Inl msg, s1) \<Rightarrow> (Inr False, print (''Failed to start API server: '' @ msg) s1)
      | (Inr p, s1) \<Rightarrow>
          (let s2 = print ''Waiting for API to start...'' (s1\<lparr>api_process := Some p\<rparr>) in
           case start_api_loop e 15 0 s2 of
             (Inl x, s3) \<Rightarrow> (Inl x, s3)
           | (Inr True, s3) \<Rightarrow> (Inr True, s3)
           | (Inr False, s3) \<Rightarrow>
               (let s4 = print ''API server failed to start within 15 seconds'' s3 in
                case api_process s4 of
                  Some q \<Rightarrow> (Inr False, terminate q s4)
                | None \<Rightarrow> (Inr False, s4))))"

definition start_streamlit :: "env \<Rightarrow> state \<Rightarrow> (abrupt + bool) \<times> state" where
  "start_streamlit e s =
     (let s0 = print ''Starting Streamlit dashboard...'' s in
      case popen e Frontend s0 of
        (Inl msg, s1) \<Rightarrow> (Inr False, print (''Failed to start Streamlit: '' @ msg) s1)
      | (Inr p, s1) \<Rightarrow>
          (case sleep e 3 (s1\<lparr>streamlit_process := Some p\<rparr>) of
             (Inl x, s2) \<Rightarrow> (Inl x, s2)
           | (Inr u, s2) \<Rightarrow>
               (Inr True, print ''Streamlit dashboard started on http://localhost:8501'' s2)))"

text \<open>
  The \<^verbatim>\<open>while True\<close> loop of \<^verbatim>\<open>main\<close>, lines 135 to 145. The loop has no bound of its
  own; \<open>n\<close> is the number of iterations observed, and \<open>None\<close> says that the loop is still
  running after them. \<open>Some (Inr ())\<close> is a \<^verbatim>\<open>break\<close>.
\<close>

fun monitor :: "env \<Rightarrow> nat \<Rightarrow> state \<Rightarrow> (abrupt + unit) option \<times> state" where
  "monitor e 0 s = (None, s)"
| "monitor e (Suc n) s =
     (case sleep e 1 s of
        (Inl x, s1) \<Rightarrow> (Some (Inl x), s1)
      | (Inr u, s1) \<Rightarrow>
          (case (case api_process s1 of None \<Rightarrow> (False, s1) | Some p \<Rightarrow> poll e p s1) of
             (True, s2) \<Rightarrow> (Some (Inr ()), print ''API server stopped unexpectedly'' s2)
           | (False, s2) \<Rightarrow>
               (case (case streamlit_process s2 of None \<Rightarrow> (False, s2)
                      | Some p \<Rightarrow> poll e p s2) of
                  (True, s3) \<Rightarrow>
                    (Some (Inr ()), print ''Streamlit dashboard stopped unexpectedly'' s3)
                | (False, s3) \<Rightarrow> monitor e n s3)))"

text \<open>
  Lines 133 to 150: the loop inside \<^verbatim>\<open>try\<close>, with \<^verbatim>\<open>cleanup\<close> in the \<^verbatim>\<open>finally\<close> clause.
  The interrupt signal is handled by \<^verbatim>\<open>signal_handler\<close>, so no \<^verbatim>\<open>KeyboardInterrupt\<close> is
  raised and the \<^verbatim>\<open>except\<close> clause catches nothing; a \<^verbatim>\<open>SystemExit\<close> passes through
  \<^verbatim>\<open>finally\<close>.
\<close>

definition monitoring :: "env \<Rightarrow> nat \<Rightarrow> state \<Rightarrow> (abrupt + unit) option \<times> state" where
  "monitoring e fuel s =
     (case monitor e fuel s of
        (None, s1) \<Rightarrow> (None, s1)
      | (Some (Inl KeyboardInterrupt), s1) \<Rightarrow> (Some (Inr ()), cleanup e s1)
      | (Some r, s1) \<Rightarrow> (Some r, cleanup e s1))"

text \<open>
  Lines 114 to 120 of \<^verbatim>\<open>main\<close>: the check for a backend that is already running, and the
  start of one otherwise. \<open>Inl (SystemExit 1)\<close> is the \<^verbatim>\<open>sys.exit(1)\<close> of line 120.
\<close>

definition main_api :: "env \<Rightarrow> state \<Rightarrow> (abrupt + unit) \<times> state" where
  "main_api e s =
     (case check_api_running e s of
        (True, s1) \<Rightarrow> (Inr (), print ''API server is already running'' s1)
      | (False, s1) \<Rightarrow>
          (case start_api e s1 of
             (Inl x, s2) \<Rightarrow> (Inl x, s2)
           | (Inr True, s2) \<Rightarrow> (Inr (), s2)
           | (Inr False, s2) \<Rightarrow>
               (Inl (SystemExit 1), print ''Cannot start system without API server'' s2)))"

text \<open>
  \<^verbatim>\<open>main\<close>. The registrations of lines 107 to 109 show in \<open>sleep\<close>, which runs the
  handler, and in \<open>start_system\<close> below, which runs the exit hook.
\<close>

definition main :: "env \<Rightarrow> nat \<Rightarrow> state \<Rightarrow> (abrupt + unit) option \<times> state" where
  "main e fuel s =
     (let s0 = print (replicate 50 CHR ''='') (print ''Fraud Detection System Launcher'' s) in
      case main_api e s0 of
        (Inl x, s3) \<Rightarrow> (Some (Inl x), s3)
      | (Inr u, s3) \<Rightarrow>
          (case start_streamlit e s3 of
             (Inl x, s4) \<Rightarrow> (Some (Inl x), s4)
           | (Inr False, s4) \<Rightarrow> (Some (Inl (SystemExit 1)), cleanup e s4)
           | (Inr True, s4) \<Rightarrow>
               monitoring e fuel
                 (print (replicate 50 CHR ''='')
                   (print ''Press Ctrl+C to stop all services''
                     (print ''API: http://localhost:8001/docs''
                       (print ''Dashboard: http://localhost:8501''
                         (print ''Fraud Detection System is ready!'' s4)))))))"

definition init :: state where
  "init = \<lparr>calls = [], stdout = [], status = (\<lambda>p. NotSpawned),
           api_process = None, streamlit_process = None\<rparr>"

text \<open>
  The script run as a program: \<^verbatim>\<open>main()\<close> from the initial module state; when it ends,
  the interpreter runs the \<^verbatim>\<open>atexit\<close> hook, which is \<^verbatim>\<open>cleanup\<close>, and exits with the code
  of the \<^verbatim>\<open>SystemExit\<close>, or 0 after a normal return. \<open>None\<close>: still in the monitoring loop
  after \<open>fuel\<close> iterations.
\<close>

definition exit_code_of :: "abrupt + unit \<Rightarrow> int" where
  "exit_code_of r = (case r of Inl (SystemExit n) \<Rightarrow> n | Inl _ \<Rightarrow> 1 | Inr u \<Rightarrow> 0)"

definition start_system :: "env \<Rightarrow> nat \<Rightarrow> int option \<times> state" where
  "start_system e fuel =
     (case main e fuel init of
        (None, s) \<Rightarrow> (None, s)
      | (Some r, s) \<Rightarrow> (Some (exit_code_of r), cleanup e s))"

section \<open>run\_dashboard.py\<close>

text \<open>
  The simple launcher installs no signal handler: an interrupt delivered during a sleep
  raises \<^verbatim>\<open>KeyboardInterrupt\<close> there, and a terminate signal ends the interpreter at
  once. Its handles are local variables of \<^verbatim>\<open>main\<close>, so its functions pass the world only
  (\<open>api_proc\<close> and \<open>streamlit_proc\<close> stand for the locals \<^verbatim>\<open>api_process\<close> and
  \<^verbatim>\<open>streamlit_process\<close>).
\<close>

definition rd_sleep :: "env \<Rightarrow> nat \<Rightarrow> world \<Rightarrow> (abrupt + unit) \<times> world" where
  "rd_sleep e secs s =
     (case signal_at e (n_sleeps (calls s)) of
        None \<Rightarrow> (Inr (), log_call (Sleep secs) s)
      | Some SIGINT \<Rightarrow> (Inl KeyboardInterrupt, log_call (Sleep secs) s)
      | Some SIGTERM \<Rightarrow> (Inl KilledBySignal, log_call (Sleep secs) s))"

definition rd_check_api_running :: "env \<Rightarrow> world \<Rightarrow> bool \<times> world" where
  "rd_check_api_running e s =
     (case probe e (n_gets (calls s)) of
        Response status_code \<Rightarrow> (status_code = 200, log_call (HttpGet 5) s)
      | _ \<Rightarrow> (False, log_call (HttpGet 5) s))"

fun rd_start_api_loop ::
  "env \<Rightarrow> nat \<Rightarrow> nat \<Rightarrow> world \<Rightarrow> (abrupt + bool) \<times> world" where
  "rd_start_api_loop e 0 i s = (Inr False, s)"
| "rd_start_api_loop e (Suc n) i s =
     (case rd_sleep e 1 s of
        (Inl x, s1) \<Rightarrow> (Inl x, s1)
      | (Inr u, s1) \<Rightarrow>
          (case rd_check_api_running e s1 of
             (True, s2) \<Rightarrow> (Inr True, print ''API server started successfully!'' s2)
           | (False, s2) \<Rightarrow>
               rd_start_api_loop e n (i + 1)
                 (print (''   Checking... ('' @ str_nat (i + 1) @ ''/10)'') s2)))"

definition rd_start_api :: "env \<Rightarrow> world \<Rightarrow> (abrupt + pname option) \<times> world" where
  "rd_start_api e s =
     (let s0 = print ''Starting API server...'' s in
      case popen e Backend s0 of
        (Inl msg, s1) \<Rightarrow> (Inr None, print (''Failed to start API server: '' @ msg) s1)
      | (Inr api_proc, s1) \<Rightarrow>
          (case rd_start_api_loop e 10 0 (print ''Waiting for API to start...'' s1) of
             (Inl x, s3) \<Rightarrow> (Inl x, s3)
           | (Inr True, s3) \<Rightarrow> (Inr (Some api_proc), s3)
           | (Inr False, s3) \<Rightarrow>
               (Inr None,
                terminate api_proc
                  (print ''API server failed to start within 10 seconds'' s3))))"

definition rd_start_streamlit :: "env \<Rightarrow> world \<Rightarrow> pname option \<times> world" where
  "rd_start_streamlit e s =
     (let s0 = print ''Starting Streamlit dashboard...'' s in
      case popen e Frontend s0 of
        (Inl msg, s1) \<Rightarrow> (None, print (''Failed to start Streamlit: '' @ msg) s1)
      | (Inr streamlit_proc, s1) \<Rightarrow> (Some streamlit_proc, s1))"

text \<open>
  Lines 86 to 94: the unbounded \<^verbatim>\<open>streamlit_process.wait()\<close> inside \<^verbatim>\<open>try\<close>, with the
  \<^verbatim>\<open>except KeyboardInterrupt\<close> clause that terminates both children.
\<close>

definition rd_wait_streamlit ::
  "env \<Rightarrow> pname option \<Rightarrow> pname \<Rightarrow> world \<Rightarrow> (abrupt + unit) option \<times> world" where
  "rd_wait_streamlit e api_proc streamlit_proc s =
     (let s0 = log_call (WaitForever streamlit_proc) s in
      case dashboard_wait e of
        None \<Rightarrow> (None, s0)
      | Some None \<Rightarrow> (Some (Inr ()), set_status streamlit_proc Reaped s0)
      | Some (Some KeyboardInterrupt) \<Rightarrow>
          (let s1 = print ''Stopping services...'' s0;
               s2 = (case api_proc of None \<Rightarrow> s1 | Some p \<Rightarrow> terminate p s1)
           in (Some (Inr ()), print ''All services stopped'' (terminate streamlit_proc s2)))
      | Some (Some x) \<Rightarrow> (Some (Inl x), s0))"

text \<open>Lines 64 to 72 of \<^verbatim>\<open>main\<close>; the result is the local \<^verbatim>\<open>api_process\<close>.\<close>

definition rd_main_api :: "env \<Rightarrow> world \<Rightarrow> (abrupt + pname option) \<times> world" where
  "rd_main_api e s =
     (case rd_check_api_running e s of
        (True, s1) \<Rightarrow> (Inr None, print ''API server is already running'' s1)
      | (False, s1) \<Rightarrow>
          (case rd_start_api e s1 of
             (Inl x, s2) \<Rightarrow> (Inl x, s2)
           | (Inr (Some p), s2) \<Rightarrow> (Inr (Some p), s2)
           | (Inr None, s2) \<Rightarrow>
               (Inl (SystemExit 1),
                print ''Cannot start dashboard without API server'' s2)))"

definition rd_main :: "env \<Rightarrow> world \<Rightarrow> (abrupt + unit) option \<times> world" where
  "rd_main e s =
     (let s0 = print (replicate 50 CHR ''='') (print ''Fraud Detection Dashboard Launcher'' s) in
      case rd_main_api e s0 of
        (Inl x, s3) \<Rightarrow> (Some (Inl x), s3)
      | (Inr api_proc, s3) \<Rightarrow>
          (case rd_start_streamlit e s3 of
             (None, s4) \<Rightarrow>
               (Some (Inl (SystemExit 1)),
                (case api_proc of None \<Rightarrow> s4 | Some p \<Rightarrow> terminate p s4))
           | (Some streamlit_proc, s4) \<Rightarrow>
               rd_wait_streamlit e api_proc streamlit_proc
                 (print ''Press Ctrl+C to stop all services''
                   (print ''API: http://localhost:8001/docs''
                     (print ''Dashboard: http://localhost:8501''
                       (print ''Fraud Detection System is ready!'' s4))))))"

definition rd_init :: world where
  "rd_init = \<lparr>calls = [], stdout = [], status = (\<lambda>p. NotSpawned)\<rparr>"

definition run_dashboard :: "env \<Rightarrow> (abrupt + unit) option \<times> world" where
  "run_dashboard e = rd_main e rd_init"

section \<open>Notions used to state the properties\<close>

text \<open>The process a library call is about, if any.\<close>

fun subject :: "call \<Rightarrow> pname option" where
  "subject (Popen p) = Some p"
| "subject (Terminate p) = Some p"
| "subject (Wait p t) = Some p"
| "subject (WaitForever p) = Some p"
| "subject (Kill p) = Some p"
| "subject (Poll p) = Some p"
| "subject (Sleep t) = None"
| "subject (HttpGet t) = None"

text \<open>A process is owned when one of the two global handles holds it.\<close>

definition owned :: "state \<Rightarrow> pname \<Rightarrow> bool" where
  "owned s p = (streamlit_process s = Some p \<or> api_process s = Some p)"

text \<open>The calls \<^verbatim>\<open>cleanup\<close> may issue from a state.\<close>

definition stop_calls :: "state \<Rightarrow> call set" where
  "stop_calls s = {c. \<exists>p. owned s p \<and> (c = Terminate p \<or> c = Wait p 5 \<or> c = Kill p)}"

text \<open>The polls the monitoring loop may issue from a state.\<close>

definition poll_calls :: "state \<Rightarrow> call set" where
  "poll_calls s = {c. \<exists>p. owned s p \<and> c = Poll p}"

text \<open>The second state's calls are the first's followed by calls taken from a set.\<close>

definition extends :: "'a world_scheme \<Rightarrow> 'b world_scheme \<Rightarrow> call set \<Rightarrow> bool" where
  "extends s s' X = (\<exists>ys. calls s' = calls s @ ys \<and> set ys \<subseteq> X)"

text \<open>Some health request among those issued so far was answered with status 200.\<close>

definition seen_ready :: "env \<Rightarrow> call list \<Rightarrow> bool" where
  "seen_ready e cs = (\<exists>k<n_gets cs. probe e k = Response 200)"

text \<open>
  Every spawn of the frontend in a list of calls comes after a health request that was
  answered with status 200.
\<close>

definition gated :: "env \<Rightarrow> call list \<Rightarrow> bool" where
  "gated e cs = (\<forall>xs ys. cs = xs @ Popen Frontend # ys \<longrightarrow> seen_ready e xs)"

text \<open>
  Concrete worlds and states used to run the model: a world in which every health request
  is answered with status 200, every spawn succeeds, every child exits within the grace
  period, no child exits by itself and no signal arrives; a state in which both children
  run; a state in which only the frontend runs.
\<close>

definition env_ok :: env where
  "env_ok = \<lparr>probe = (\<lambda>k. Response 200), spawn = (\<lambda>p. None), exits_in_grace = (\<lambda>p. True),
     found_exited = (\<lambda>p t. False), signal_at = (\<lambda>t. None), dashboard_wait = None\<rparr>"

definition both_running :: state where
  "both_running = \<lparr>calls = [], stdout = [], status = (\<lambda>p. Alive),
     api_process = Some Backend, streamlit_process = Some Frontend\<rparr>"

definition frontend_running :: state where
  "frontend_running = \<lparr>calls = [], stdout = [], status = (\<lambda>p. if p = Frontend then Alive else NotSpawned),
     api_process = None, streamlit_process = Some Frontend\<rparr>"

text \<open>
  A world in which the first health request fails and the later ones succeed, so that the
  launcher spawns its own backend, and in which the backend is found exited at the first
  poll of the monitoring loop.
\<close>

definition env_backend_dies :: env where
  "env_backend_dies = env_ok\<lparr>probe := (\<lambda>k. if k = 0 then ConnectionError else Response 200),
      found_exited := (\<lambda>p t. p = Backend)\<rparr>"

text \<open>A world in which no health request is ever answered.\<close>

definition env_never_ready :: env where
  "env_never_ready = env_ok\<lparr>probe := (\<lambda>k. ConnectionError)\<rparr>"

text \<open>
  A world in which the health request number 3, counting from 0, is the first one answered
  with status 200.
\<close>

definition env_ready_at_3 :: env where
  "env_ready_at_3 = env_ok\<lparr>probe := (\<lambda>k. if k = 3 then Response 200 else Timeout)\<rparr>"


text \<open>
  The startup as the world decides it. The polling sleeps are the sleeps 0 to 14 of the
  run and the polling probes are the health requests 1 to 15, request 0 being the one made
  before anything is spawned. The polls time out when no signal arrives during the 15
  sleeps and none of the 15 probes is answered with status 200; the backend is ready at
  poll \<open>k\<close> (counting from 0) when no signal arrives up to that sleep and that probe is the
  first one answered with status 200. The startup fails when the backend is not found
  running and either its spawn raises or the polls time out, or when the backend is ready
  and the spawn of the frontend raises.
\<close>

definition polls_time_out :: "env \<Rightarrow> bool" where
  "polls_time_out e = (\<forall>j \<in> {..<15}. signal_at e j = None \<and> probe e (Suc j) \<noteq> Response 200)"

definition backend_ready_at :: "env \<Rightarrow> nat \<Rightarrow> bool" where
  "backend_ready_at e k =
     ((\<forall>j \<in> {..k}. signal_at e j = None) \<and>
      (\<forall>j \<in> {..<k}. probe e (Suc j) \<noteq> Response 200) \<and>
      probe e (Suc k) = Response 200)"

definition startup_fails :: "env \<Rightarrow> bool" where
  "startup_fails e =
     (if probe e 0 = Response 200 then spawn e Frontend \<noteq> None
      else spawn e Backend \<noteq> None \<or> polls_time_out e \<or>
           ((\<exists>k \<in> {..<15}. backend_ready_at e k) \<and> spawn e Frontend \<noteq> None))"

text \<open>A world in which the spawn of the frontend raises.\<close>

definition env_frontend_spawn_error :: env where
  "env_frontend_spawn_error = env_ok\<lparr>spawn := (\<lambda>p. if p = Frontend then Some ''boom'' else None)\<rparr>"

section \<open>Basic facts about the state and the library calls\<close>


lemma log_call_proj [simp]:
  "calls (log_call c s) = calls s @ [c]" "stdout (log_call c s) = stdout s"
  "status (log_call c s) = status s"
  "api_process (log_call c t) = api_process t" "streamlit_process (log_call c t) = streamlit_process t"
  by (simp_all add: log_call_def)

lemma print_proj [simp]:
  "calls (print m s) = calls s" "stdout (print m s) = stdout s @ [m]"
  "status (print m s) = status s"
  "api_process (print m t) = api_process t" "streamlit_process (print m t) = streamlit_process t"
  by (simp_all add: print_def)

lemma set_status_proj [simp]:
  "calls (set_status p st s) = calls s" "stdout (set_status p st s) = stdout s"
  "status (set_status p st s) = (status s)(p := st)"
  "api_process (set_status p st t) = api_process t"
  "streamlit_process (set_status p st t) = streamlit_process t"
  by (simp_all add: set_status_def)

lemma terminate_proj [simp]:
  "calls (terminate p s) = calls s @ [Terminate p]" "stdout (terminate p s) = stdout s"
  "status (terminate p s) = status s"
  "api_process (terminate p t) = api_process t" "streamlit_process (terminate p t) = streamlit_process t"
  by (simp_all add: terminate_def)

lemma n_gets_simps [simp]:
  "n_gets [] = 0" "n_gets (xs @ ys) = n_gets xs + n_gets ys"
  "n_gets (HttpGet t # xs) = Suc (n_gets xs)" "n_gets (Sleep t # xs) = n_gets xs"
  "n_gets (Popen p # xs) = n_gets xs" "n_gets (Terminate p # xs) = n_gets xs"
  "n_gets (Wait p t # xs) = n_gets xs" "n_gets (Kill p # xs) = n_gets xs"
  "n_gets (Poll p # xs) = n_gets xs" "n_gets (WaitForever p # xs) = n_gets xs"
  by (simp_all add: n_gets_def)

lemma n_sleeps_simps [simp]:
  "n_sleeps [] = 0" "n_sleeps (xs @ ys) = n_sleeps xs + n_sleeps ys"
  "n_sleeps (HttpGet t # xs) = n_sleeps xs" "n_sleeps (Sleep t # xs) = Suc (n_sleeps xs)"
  "n_sleeps (Popen p # xs) = n_sleeps xs" "n_sleeps (Terminate p # xs) = n_sleeps xs"
  "n_sleeps (Wait p t # xs) = n_sleeps xs" "n_sleeps (Kill p # xs) = n_sleeps xs"
  "n_sleeps (Poll p # xs) = n_sleeps xs" "n_sleeps (WaitForever p # xs) = n_sleeps xs"
  by (simp_all add: n_sleeps_def)

lemma check_api_running_eq:
  "check_api_running e s = (probe e (n_gets (calls s)) = Response 200, log_call (HttpGet 3) s)"
  by (simp add: check_api_running_def split: probe_outcome.splits)

lemma sleep_quiet:
  "signal_at e (n_sleeps (calls s)) = None \<Longrightarrow> sleep e t s = (Inr (), log_call (Sleep t) s)"
  by (simp add: sleep_def)

lemma n_sleeps_concat_rep [simp]: "n_sleeps (concat (replicate n [Sleep a, HttpGet b])) = n"
  by (induction n) simp_all
lemma n_gets_concat_rep [simp]: "n_gets (concat (replicate n [Sleep a, HttpGet b])) = n"
  by (induction n) simp_all

lemma start_api_loop_all_fail:
  "\<forall>j<n. signal_at e (n_sleeps (calls s) + j) = None \<Longrightarrow>
   \<forall>j<n. probe e (n_gets (calls s) + j) \<noteq> Response 200 \<Longrightarrow>
   fst (start_api_loop e n i s) = Inr False \<and>
   calls (snd (start_api_loop e n i s)) = calls s @ concat (replicate n [Sleep 1, HttpGet 3]) \<and>
   status (snd (start_api_loop e n i s)) = status s \<and>
   api_process (snd (start_api_loop e n i s)) = api_process s \<and>
   streamlit_process (snd (start_api_loop e n i s)) = streamlit_process s"
proof (induction n arbitrary: i s)
  case 0
  then show ?case by simp
next
  case (Suc n)
  let ?s2 = "print (''   Checking... ('' @ str_nat (i + 1) @ ''/15)'')
               (log_call (HttpGet 3) (log_call (Sleep 1) s))"
  have q: "signal_at e (n_sleeps (calls s)) = None" and f: "probe e (n_gets (calls s)) \<noteq> Response 200"
    using Suc.prems(1)[rule_format, of 0] Suc.prems(2)[rule_format, of 0] by simp_all
  have step: "start_api_loop e (Suc n) i s = start_api_loop e n (i + 1) ?s2"
    using q f by (simp add: sleep_quiet check_api_running_eq)
  have a: "\<forall>j<n. signal_at e (n_sleeps (calls ?s2) + j) = None"
  proof (intro allI impI)
    fix j assume "j < n"
    then show "signal_at e (n_sleeps (calls ?s2) + j) = None"
      using Suc.prems(1)[rule_format, of "Suc j"] by simp
  qed
  have b: "\<forall>j<n. probe e (n_gets (calls ?s2) + j) \<noteq> Response 200"
  proof (intro allI impI)
    fix j assume "j < n"
    then show "probe e (n_gets (calls ?s2) + j) \<noteq> Response 200"
      using Suc.prems(2)[rule_format, of "Suc j"] by simp
  qed
  show ?case
    unfolding step using Suc.IH[OF a b, of "i + 1"] by simp
qed

lemma start_api_loop_success:
  "\<forall>j\<le>k. signal_at e (n_sleeps (calls s) + j) = None \<Longrightarrow>
   \<forall>j<k. probe e (n_gets (calls s) + j) \<noteq> Response 200 \<Longrightarrow>
   probe e (n_gets (calls s) + k) = Response 200 \<Longrightarrow> k < n \<Longrightarrow>
   fst (start_api_loop e n i s) = Inr True \<and>
   calls (snd (start_api_loop e n i s)) = calls s @ concat (replicate (Suc k) [Sleep 1, HttpGet 3]) \<and>
   status (snd (start_api_loop e n i s)) = status s \<and>
   api_process (snd (start_api_loop e n i s)) = api_process s \<and>
   streamlit_process (snd (start_api_loop e n i s)) = streamlit_process s"
proof (induction k arbitrary: n i s)
  case 0
  then obtain m where n: "n = Suc m" by (cases n) auto
  from 0 show ?case unfolding n
    by (simp add: sleep_quiet check_api_running_eq)
next
  case (Suc k)
  then obtain m where n: "n = Suc m" and km: "k < m" by (cases n) auto
  let ?s2 = "print (''   Checking... ('' @ str_nat (i + 1) @ ''/15)'')
               (log_call (HttpGet 3) (log_call (Sleep 1) s))"
  have q: "signal_at e (n_sleeps (calls s)) = None" and f: "probe e (n_gets (calls s)) \<noteq> Response 200"
    using Suc.prems(1)[rule_format, of 0] Suc.prems(2)[rule_format, of 0] by simp_all
  have step: "start_api_loop e (Suc m) i s = start_api_loop e m (i + 1) ?s2"
    using q f by (simp add: sleep_quiet check_api_running_eq)
  have a: "\<forall>j\<le>k. signal_at e (n_sleeps (calls ?s2) + j) = None"
  proof (intro allI impI)
    fix j assume "j \<le> k"
    then show "signal_at e (n_sleeps (calls ?s2) + j) = None"
      using Suc.prems(1)[rule_format, of "Suc j"] by simp
  qed
  have b: "\<forall>j<k. probe e (n_gets (calls ?s2) + j) \<noteq> Response 200"
  proof (intro allI impI)
    fix j assume "j < k"
    then show "probe e (n_gets (calls ?s2) + j) \<noteq> Response 200"
      using Suc.prems(2)[rule_format, of "Suc j"] by simp
  qed
  have c: "probe e (n_gets (calls ?s2) + k) = Response 200"
    using Suc.prems(3) by simp
  show ?case
    unfolding n step using Suc.IH[OF a b c km, of "i + 1"] by simp
qed

lemma stop_handle_Some:
  "stop_handle e (Some p) s =
     (if status s p = Alive \<and> \<not> exits_in_grace e p
      then set_status p Dead (log_call (Kill p) (log_call (Wait p 5) (log_call (Terminate p) s)))
      else set_status p Reaped (log_call (Wait p 5) (log_call (Terminate p) s)))"
  by (simp add: stop_handle_def wait_def kill_def terminate_def)

lemma stop_handle_None: "stop_handle e None s = s"
  by (simp add: stop_handle_def)

lemma stop_handle_frame [simp]:
  "api_process (stop_handle e h s) = api_process s"
  "streamlit_process (stop_handle e h s) = streamlit_process s"
  "stdout (stop_handle e h s) = stdout s"
  by (cases h; simp add: stop_handle_Some stop_handle_None)+

lemma stop_handle_calls:
  "calls (stop_handle e h s) = calls s @
     (case h of None \<Rightarrow> []
      | Some p \<Rightarrow> [Terminate p, Wait p 5] @
          (if status s p = Alive \<and> \<not> exits_in_grace e p then [Kill p] else []))"
  by (cases h) (simp_all add: stop_handle_Some stop_handle_None)

lemma stop_handle_status:
  "status (stop_handle e h s) =
     (case h of None \<Rightarrow> status s
      | Some p \<Rightarrow> (status s)(p := if status s p = Alive \<and> \<not> exits_in_grace e p then Dead else Reaped))"
  by (cases h) (simp_all add: stop_handle_Some stop_handle_None)

lemma cleanup_frame [simp]:
  "api_process (cleanup e s) = api_process s"
  "streamlit_process (cleanup e s) = streamlit_process s"
  by (simp_all add: cleanup_def Let_def)

lemma cleanup_stdout:
  "stdout (cleanup e s) = stdout s @ [''Shutting down services...'', ''All services stopped'']"
  by (simp add: cleanup_def Let_def)

lemma cleanup_calls:
  "calls (cleanup e s) =
     calls (stop_handle e (api_process s) (stop_handle e (streamlit_process s) s))"
  by (simp add: cleanup_def Let_def stop_handle_calls stop_handle_status split: option.splits)

lemma cleanup_status:
  "status (cleanup e s) =
     status (stop_handle e (api_process s) (stop_handle e (streamlit_process s) s))"
  by (simp add: cleanup_def Let_def stop_handle_calls stop_handle_status split: option.splits)

lemma cleanup_new:
  "\<exists>ys. calls (cleanup e s) = calls s @ ys \<and> set ys \<subseteq> stop_calls s"
  by (auto simp: cleanup_calls stop_handle_calls stop_calls_def owned_def split: option.splits)

lemma cleanup_owned_stopped:
  "owned s p \<Longrightarrow> Terminate p \<in> set (calls (cleanup e s)) \<and> status (cleanup e s) p \<noteq> Alive"
  by (auto simp: cleanup_calls cleanup_status stop_handle_calls stop_handle_status owned_def split: option.splits)

lemma sleep_cases:
  "sleep e t s = (Inr (), log_call (Sleep t) s) \<or>
   sleep e t s = (Inl (SystemExit 0), cleanup e (log_call (Sleep t) s))"
  by (simp add: sleep_def signal_handler_def split: option.splits)

lemma sleep_frame [simp]:
  "api_process (snd (sleep e t s)) = api_process s"
  "streamlit_process (snd (sleep e t s)) = streamlit_process s"
  using sleep_cases[of e t s] by auto

lemma stop_calls_cong [simp]:
  "stop_calls (log_call c s) = stop_calls s" "stop_calls (print m s) = stop_calls s"
  "stop_calls (set_status p st s) = stop_calls s"
  by (simp_all add: stop_calls_def owned_def)

lemma sleep_new:
  "\<exists>ys. calls (snd (sleep e t s)) = calls s @ Sleep t # ys \<and> set ys \<subseteq> stop_calls s"
  using sleep_cases[of e t s] cleanup_new[of e "log_call (Sleep t) s"]
  by auto

lemma extends_refl: "calls s' = calls s \<Longrightarrow> extends s s' X"
  by (simp add: extends_def)

lemma extends_trans: "extends s s' X \<Longrightarrow> extends s' s'' Y \<Longrightarrow> X \<subseteq> Z \<Longrightarrow> Y \<subseteq> Z \<Longrightarrow> extends s s'' Z"
  unfolding extends_def
proof (elim exE conjE)
  fix ys zs
  assume "X \<subseteq> Z" "Y \<subseteq> Z" "calls s' = calls s @ ys" "set ys \<subseteq> X"
    "calls s'' = calls s' @ zs" "set zs \<subseteq> Y"
  then have "calls s'' = calls s @ (ys @ zs) \<and> set (ys @ zs) \<subseteq> Z" by auto
  then show "\<exists>ys. calls s'' = calls s @ ys \<and> set ys \<subseteq> Z" by blast
qed

lemma extends_mono: "extends s s' X \<Longrightarrow> X \<subseteq> Y \<Longrightarrow> extends s s' Y"
  by (auto simp: extends_def)

lemma extends_step: "calls s' = calls s @ [c] \<Longrightarrow> c \<in> X \<Longrightarrow> extends s s' X"
  by (simp add: extends_def)

lemma extends_set: "extends s s' X \<Longrightarrow> set (calls s') \<subseteq> set (calls s) \<union> X"
  by (auto simp: extends_def)

lemma cleanup_extends: "extends s (cleanup e s) (stop_calls s)"
  using cleanup_new[of e s] by (simp add: extends_def)

lemma sleep_extends: "extends s (snd (sleep e t s)) (insert (Sleep t) (stop_calls s))"
  using sleep_new[of e t s] by (auto simp: extends_def)

lemma sleep_result: "fst (sleep e t s) = Inr () \<or> fst (sleep e t s) = Inl (SystemExit 0)"
  using sleep_cases[of e t s] by auto

lemma stop_calls_handles:
  "api_process s' = api_process s \<Longrightarrow> streamlit_process s' = streamlit_process s \<Longrightarrow>
   stop_calls s' = stop_calls s"
  by (simp add: stop_calls_def owned_def)

lemma check_proj [simp]:
  "calls (snd (check_api_running e s)) = calls s @ [HttpGet 3]"
  "api_process (snd (check_api_running e t)) = api_process t"
  "streamlit_process (snd (check_api_running e t)) = streamlit_process t"
  "status (snd (check_api_running e s)) = status s"
  "fst (check_api_running e s) = (probe e (n_gets (calls s)) = Response 200)"
  by (simp_all add: check_api_running_eq)

lemma seen_ready_append: "seen_ready e cs \<Longrightarrow> seen_ready e (cs @ ds)"
  unfolding seen_ready_def by (metis n_gets_simps(2) trans_less_add1)

lemma start_api_loop_spec:
  "api_process (snd (start_api_loop e n i s)) = api_process s \<and>
   streamlit_process (snd (start_api_loop e n i s)) = streamlit_process s \<and>
   extends s (snd (start_api_loop e n i s)) ({Sleep 1, HttpGet 3} \<union> stop_calls s) \<and>
   (fst (start_api_loop e n i s) = Inl (SystemExit 0) \<or>
    fst (start_api_loop e n i s) = Inr False \<or>
    fst (start_api_loop e n i s) = Inr True \<and> seen_ready e (calls (snd (start_api_loop e n i s))))"
proof (induction n arbitrary: i s)
  case 0
  show ?case by (simp add: extends_refl)
next
  case (Suc n)
  let ?X = "{Sleep 1, HttpGet 3} \<union> stop_calls s"
  consider (sig) "sleep e 1 s = (Inl (SystemExit 0), cleanup e (log_call (Sleep 1) s))"
    | (quiet) "sleep e 1 s = (Inr (), log_call (Sleep 1) s)"
    using sleep_cases[of e 1 s] by blast
  then show ?case
  proof cases
    case sig
    have "extends s (cleanup e (log_call (Sleep 1) s)) ?X"
      by (rule extends_trans[OF extends_step[of "log_call (Sleep 1) s" s "Sleep 1" ?X]
            cleanup_extends[of "log_call (Sleep 1) s" e]]) auto
    with sig show ?thesis by simp
  next
    case quiet
    let ?s1 = "log_call (HttpGet 3) (log_call (Sleep 1) s)"
    show ?thesis
    proof (cases "probe e (n_gets (calls s)) = Response 200")
      case True
      have "extends s ?s1 ?X" by (auto simp: extends_def)
      moreover have "seen_ready e (calls ?s1)"
        using True by (auto simp: seen_ready_def)
      ultimately show ?thesis using quiet True
        by (simp add: check_api_running_eq extends_def)
    next
      case False
      let ?s2 = "print (''   Checking... ('' @ str_nat (i + 1) @ ''/15)'') ?s1"
      have step: "start_api_loop e (Suc n) i s = start_api_loop e n (i + 1) ?s2"
        using quiet False by (simp add: check_api_running_eq)
      have sc: "stop_calls ?s2 = stop_calls s" by simp
      have e1: "extends s ?s2 ?X" by (auto simp: extends_def)
      have e2: "extends ?s2 (snd (start_api_loop e n (i + 1) ?s2)) ?X"
        using Suc.IH[of "i + 1" ?s2] unfolding sc by blast
      have "extends s (snd (start_api_loop e n (i + 1) ?s2)) ?X"
        by (rule extends_trans[OF e1 e2]) auto
      then show ?thesis
        unfolding step using Suc.IH[of "i + 1" ?s2] by simp
    qed
  qed
qed

lemma cleanup_calls_explicit:
  "calls (cleanup e s) = calls s @
     (case streamlit_process s of None \<Rightarrow> []
      | Some p \<Rightarrow> [Terminate p, Wait p 5] @
          (if status s p = Alive \<and> \<not> exits_in_grace e p then [Kill p] else [])) @
     (case api_process s of None \<Rightarrow> []
      | Some q \<Rightarrow> [Terminate q, Wait q 5] @
          (if status (stop_handle e (streamlit_process s) s) q = Alive \<and> \<not> exits_in_grace e q
           then [Kill q] else []))"
  by (simp add: cleanup_calls stop_handle_calls split: option.splits)

lemma stop_handle_not_alive:
  "status s q \<noteq> Alive \<Longrightarrow> status (stop_handle e h s) q \<noteq> Alive"
  by (cases h) (simp_all add: stop_handle_status)

lemma stop_handle_stops: "status (stop_handle e (Some p) s) p \<noteq> Alive"
  by (simp add: stop_handle_status)

lemma cleanup_not_alive: "owned s p \<Longrightarrow> status (cleanup e s) p \<noteq> Alive"
  using cleanup_owned_stopped by blast

lemma stop_handle_calls_dead:
  "status s p \<noteq> Alive \<Longrightarrow> calls (stop_handle e (Some p) s) = calls s @ [Terminate p, Wait p 5]"
  by (simp add: stop_handle_calls)

lemma stop_handle_status_dead:
  "status s p \<noteq> Alive \<Longrightarrow> status (stop_handle e (Some p) s) = (status s)(p := Reaped)"
  by (simp add: stop_handle_status)

lemma cleanup_again_calls:
  "calls (cleanup e (cleanup e s)) = calls (cleanup e s) @
     (case streamlit_process s of None \<Rightarrow> [] | Some p \<Rightarrow> [Terminate p, Wait p 5]) @
     (case api_process s of None \<Rightarrow> [] | Some q \<Rightarrow> [Terminate q, Wait q 5])"
proof -
  let ?c = "cleanup e s"
  have f: "streamlit_process ?c = streamlit_process s" "api_process ?c = api_process s" by simp_all
  have 1: "calls (stop_handle e (streamlit_process s) ?c) = calls ?c @
      (case streamlit_process s of None \<Rightarrow> [] | Some p \<Rightarrow> [Terminate p, Wait p 5])"
  proof (cases "streamlit_process s")
    case None then show ?thesis by (simp add: stop_handle_None)
  next
    case (Some p)
    then have "status ?c p \<noteq> Alive" by (intro cleanup_not_alive) (simp add: owned_def)
    then show ?thesis using Some by (simp add: stop_handle_calls_dead)
  qed
  have 2: "calls (stop_handle e (api_process s) (stop_handle e (streamlit_process s) ?c)) =
      calls (stop_handle e (streamlit_process s) ?c) @
      (case api_process s of None \<Rightarrow> [] | Some q \<Rightarrow> [Terminate q, Wait q 5])"
  proof (cases "api_process s")
    case None then show ?thesis by (simp add: stop_handle_None)
  next
    case (Some q)
    then have "status ?c q \<noteq> Alive" by (intro cleanup_not_alive) (simp add: owned_def)
    then have "status (stop_handle e (streamlit_process s) ?c) q \<noteq> Alive"
      by (rule stop_handle_not_alive)
    then show ?thesis using Some by (simp add: stop_handle_calls_dead)
  qed
  show ?thesis
    unfolding cleanup_calls[of e ?c] f 2 1 by simp
qed

lemma cleanup_again_status:
  assumes "owned s p"
  shows "status (cleanup e (cleanup e s)) p = Reaped"
proof -
  let ?c = "cleanup e s"
  let ?m = "stop_handle e (streamlit_process s) ?c"
  have f: "streamlit_process ?c = streamlit_process s" "api_process ?c = api_process s" by simp_all
  have na: "\<And>q. owned s q \<Longrightarrow> status ?c q \<noteq> Alive" by (rule cleanup_not_alive)
  have eq: "status (cleanup e ?c) = status (stop_handle e (api_process s) ?m)"
    unfolding cleanup_status[of e ?c] f ..
  show ?thesis
  proof (cases "api_process s = Some p")
    case True
    have "status ?m p \<noteq> Alive" using na[OF assms] by (rule stop_handle_not_alive)
    then show ?thesis unfolding eq True by (simp add: stop_handle_status_dead)
  next
    case False
    with assms have sp: "streamlit_process s = Some p" by (simp add: owned_def)
    have m: "status ?m p = Reaped"
      unfolding sp using na[OF assms] by (simp add: stop_handle_status_dead)
    show ?thesis
    proof (cases "api_process s")
      case None then show ?thesis unfolding eq using m by (simp add: stop_handle_None)
    next
      case (Some q)
      with False have "q \<noteq> p" by simp
      then show ?thesis unfolding eq Some using m by (simp add: stop_handle_status)
    qed
  qed
qed

lemma popen_cases:
  "spawn e p = None \<and> popen e p s = (Inr p, set_status p Alive (log_call (Popen p) s)) \<or>
   (\<exists>msg. spawn e p = Some msg \<and> popen e p s = (Inl msg, log_call (Popen p) s))"
  by (cases "spawn e p") (simp_all add: popen_def)

lemma stop_calls_mono:
  "api_process s' = api_process s \<or> api_process s = None \<Longrightarrow>
   streamlit_process s' = streamlit_process s \<or> streamlit_process s = None \<Longrightarrow>
   stop_calls s \<subseteq> stop_calls s'"
  by (auto simp: stop_calls_def owned_def)

lemma start_api_spec:
  "streamlit_process (snd (start_api e s)) = streamlit_process s \<and>
   (api_process (snd (start_api e s)) = api_process s \<or>
    api_process (snd (start_api e s)) = Some Backend) \<and>
   extends s (snd (start_api e s))
     ({Popen Backend, Sleep 1, HttpGet 3} \<union> stop_calls (s\<lparr>api_process := Some Backend\<rparr>)) \<and>
   (fst (start_api e s) = Inl (SystemExit 0) \<or>
    fst (start_api e s) = Inr False \<or>
    fst (start_api e s) = Inr True \<and> seen_ready e (calls (snd (start_api e s))))"
proof -
  let ?X = "{Popen Backend, Sleep 1, HttpGet 3} \<union> stop_calls (s\<lparr>api_process := Some Backend\<rparr>)"
  let ?s0 = "print ''Starting API server...'' s"
  from popen_cases[of e Backend ?s0] show ?thesis
  proof (elim disjE conjE exE)
    fix msg assume "spawn e Backend = Some msg" and p: "popen e Backend ?s0 = (Inl msg, log_call (Popen Backend) ?s0)"
    have "extends s (print (''Failed to start API server: '' @ msg) (log_call (Popen Backend) ?s0)) ?X"
      by (rule extends_step[where c="Popen Backend"]) simp_all
    then show ?thesis using p by (simp add: start_api_def Let_def)
  next
    assume "spawn e Backend = None"
      and p: "popen e Backend ?s0 = (Inr Backend, set_status Backend Alive (log_call (Popen Backend) ?s0))"
    let ?s2 = "print ''Waiting for API to start...''
                 ((set_status Backend Alive (log_call (Popen Backend) ?s0))\<lparr>api_process := Some Backend\<rparr>)"
    let ?L = "start_api_loop e 15 0 ?s2"
    have sc: "stop_calls ?s2 = stop_calls (s\<lparr>api_process := Some Backend\<rparr>)"
      by (simp add: stop_calls_def owned_def)
    have e1: "extends s ?s2 ?X" by (rule extends_step[where c="Popen Backend"]) simp_all
    note L = start_api_loop_spec[of e 15 0 ?s2]
    have e2: "extends ?s2 (snd ?L) ?X"
      using L unfolding sc by (blast intro: extends_mono)
    have e3: "extends s (snd ?L) ?X" by (rule extends_trans[OF e1 e2]) auto
    have hL: "api_process (snd ?L) = Some Backend" "streamlit_process (snd ?L) = streamlit_process s"
      using L by simp_all
    let ?s4 = "print ''API server failed to start within 15 seconds'' (snd ?L)"
    have e4: "extends s (terminate Backend ?s4) ?X"
      by (rule extends_trans[OF e3 extends_step[where c="Terminate Backend" and X="?X"]])
         (auto simp: stop_calls_def owned_def)
    have unf: "start_api e s =
       (case ?L of (Inl x, s3) \<Rightarrow> (Inl x, s3) | (Inr True, s3) \<Rightarrow> (Inr True, s3)
        | (Inr False, s3) \<Rightarrow> (Inr False, terminate Backend (print ''API server failed to start within 15 seconds'' s3)))"
    proof (cases ?L)
      case (Pair r s3)
      with hL(1) have "api_process s3 = Some Backend" by simp
      then show ?thesis using p Pair
        by (simp add: start_api_def Let_def split: sum.splits bool.splits)
    qed
    from L consider (sig) "fst ?L = Inl (SystemExit 0)" | (no) "fst ?L = Inr False"
      | (yes) "fst ?L = Inr True" "seen_ready e (calls (snd ?L))" by blast
    then show ?thesis
    proof cases
      case sig
      then have "start_api e s = (Inl (SystemExit 0), snd ?L)" unfolding unf by (cases ?L) simp
      then show ?thesis using e3 hL by simp
    next
      case no
      then have "start_api e s = (Inr False, terminate Backend ?s4)" unfolding unf by (cases ?L) simp
      then show ?thesis using e4 hL by simp
    next
      case yes
      then have "start_api e s = (Inr True, snd ?L)" unfolding unf by (cases ?L) simp
      then show ?thesis using e3 hL yes by simp
    qed
  qed
qed

lemma main_api_spec:
  "streamlit_process (snd (main_api e s)) = streamlit_process s \<and>
   (api_process (snd (main_api e s)) = api_process s \<or>
    api_process (snd (main_api e s)) = Some Backend) \<and>
   extends s (snd (main_api e s))
     ({Popen Backend, Sleep 1, HttpGet 3} \<union> stop_calls (s\<lparr>api_process := Some Backend\<rparr>)) \<and>
   (fst (main_api e s) = Inl (SystemExit 0) \<or>
    fst (main_api e s) = Inl (SystemExit 1) \<or>
    fst (main_api e s) = Inr () \<and> seen_ready e (calls (snd (main_api e s))))"
proof (cases "probe e (n_gets (calls s)) = Response 200")
  case True
  let ?X = "{Popen Backend, Sleep 1, HttpGet 3} \<union> stop_calls (s\<lparr>api_process := Some Backend\<rparr>)"
  have m: "main_api e s = (Inr (), print ''API server is already running'' (log_call (HttpGet 3) s))"
    using True by (simp add: main_api_def check_api_running_eq)
  have "extends s (print ''API server is already running'' (log_call (HttpGet 3) s)) ?X"
    by (rule extends_step[where c="HttpGet 3"]) simp_all
  moreover have "seen_ready e (calls s @ [HttpGet 3])"
    unfolding seen_ready_def using True by (intro exI[of _ "n_gets (calls s)"]) simp
  ultimately show ?thesis unfolding m by simp
next
  case False
  let ?X = "{Popen Backend, Sleep 1, HttpGet 3} \<union> stop_calls (s\<lparr>api_process := Some Backend\<rparr>)"
  let ?s1 = "log_call (HttpGet 3) s"
  let ?A = "start_api e ?s1"
  have m: "main_api e s =
      (case ?A of (Inl x, s2) \<Rightarrow> (Inl x, s2) | (Inr True, s2) \<Rightarrow> (Inr (), s2)
       | (Inr False, s2) \<Rightarrow> (Inl (SystemExit 1), print ''Cannot start system without API server'' s2))"
    using False by (simp add: main_api_def check_api_running_eq)
  note A = start_api_spec[of e ?s1]
  have sc: "stop_calls (?s1\<lparr>api_process := Some Backend\<rparr>) = stop_calls (s\<lparr>api_process := Some Backend\<rparr>)"
    by (simp add: stop_calls_def owned_def)
  have e1: "extends s ?s1 ?X" by (rule extends_step[where c="HttpGet 3"]) simp_all
  have e2: "extends ?s1 (snd ?A) ?X" using A unfolding sc by blast
  have e3: "extends s (snd ?A) ?X" by (rule extends_trans[OF e1 e2]) auto
  have e4: "extends s (print ''Cannot start system without API server'' (snd ?A)) ?X"
    using e3 by (simp add: extends_def)
  have h: "streamlit_process (snd ?A) = streamlit_process s"
    "api_process (snd ?A) = api_process s \<or> api_process (snd ?A) = Some Backend"
    using A by simp_all
  from A consider (sig) "fst ?A = Inl (SystemExit 0)" | (no) "fst ?A = Inr False"
    | (yes) "fst ?A = Inr True" "seen_ready e (calls (snd ?A))" by blast
  then show ?thesis
  proof cases
    case sig
    then have "main_api e s = (Inl (SystemExit 0), snd ?A)" unfolding m by (cases ?A) simp
    then show ?thesis using e3 h by simp
  next
    case no
    then have "main_api e s = (Inl (SystemExit 1), print ''Cannot start system without API server'' (snd ?A))"
      unfolding m by (cases ?A) simp
    then show ?thesis using e4 h by simp
  next
    case yes
    then have "main_api e s = (Inr (), snd ?A)" unfolding m by (cases ?A) simp
    then show ?thesis using e3 h yes by simp
  qed
qed

lemma start_streamlit_spec:
  "api_process (snd (start_streamlit e s)) = api_process s \<and>
   (streamlit_process (snd (start_streamlit e s)) = streamlit_process s \<or>
    streamlit_process (snd (start_streamlit e s)) = Some Frontend) \<and>
   (\<exists>ys. calls (snd (start_streamlit e s)) = calls s @ Popen Frontend # ys \<and>
      set ys \<subseteq> {Sleep 3} \<union> stop_calls (s\<lparr>streamlit_process := Some Frontend\<rparr>)) \<and>
   (fst (start_streamlit e s) = Inl (SystemExit 0) \<or>
    fst (start_streamlit e s) = Inr False \<or>
    fst (start_streamlit e s) = Inr True)"
proof -
  let ?s0 = "print ''Starting Streamlit dashboard...'' s"
  from popen_cases[of e Frontend ?s0] show ?thesis
  proof (elim disjE conjE exE)
    fix msg assume "spawn e Frontend = Some msg"
      and p: "popen e Frontend ?s0 = (Inl msg, log_call (Popen Frontend) ?s0)"
    show ?thesis using p by (simp add: start_streamlit_def Let_def)
  next
    assume "spawn e Frontend = None"
      and p: "popen e Frontend ?s0 = (Inr Frontend, set_status Frontend Alive (log_call (Popen Frontend) ?s0))"
    let ?s1 = "(set_status Frontend Alive (log_call (Popen Frontend) ?s0))\<lparr>streamlit_process := Some Frontend\<rparr>"
    have sc: "stop_calls ?s1 = stop_calls (s\<lparr>streamlit_process := Some Frontend\<rparr>)"
      by (simp add: stop_calls_def owned_def)
    have c1: "calls ?s1 = calls s @ [Popen Frontend]" by simp
    have m: "start_streamlit e s =
        (case sleep e 3 ?s1 of (Inl x, s2) \<Rightarrow> (Inl x, s2)
         | (Inr u, s2) \<Rightarrow> (Inr True, print ''Streamlit dashboard started on http://localhost:8501'' s2))"
      using p by (simp add: start_streamlit_def Let_def)
    from sleep_cases[of e 3 ?s1] show ?thesis
    proof
      assume q: "sleep e 3 ?s1 = (Inr (), log_call (Sleep 3) ?s1)"
      show ?thesis unfolding m q by simp
    next
      assume q: "sleep e 3 ?s1 = (Inl (SystemExit 0), cleanup e (log_call (Sleep 3) ?s1))"
      obtain ys where ys: "calls (cleanup e (log_call (Sleep 3) ?s1)) = calls (log_call (Sleep 3) ?s1) @ ys"
        "set ys \<subseteq> stop_calls (log_call (Sleep 3) ?s1)"
        using cleanup_new[of e "log_call (Sleep 3) ?s1"] by blast
      have "calls (cleanup e (log_call (Sleep 3) ?s1)) = calls s @ Popen Frontend # (Sleep 3 # ys)"
        using ys(1) by simp
      moreover have "set (Sleep 3 # ys) \<subseteq> {Sleep 3} \<union> stop_calls (s\<lparr>streamlit_process := Some Frontend\<rparr>)"
        using ys(2) sc by auto
      ultimately have "\<exists>zs. calls (cleanup e (log_call (Sleep 3) ?s1)) = calls s @ Popen Frontend # zs \<and>
          set zs \<subseteq> {Sleep 3} \<union> stop_calls (s\<lparr>streamlit_process := Some Frontend\<rparr>)" by blast
      then show ?thesis unfolding m q by simp
    qed
  qed
qed

lemma poll_proj [simp]:
  "calls (snd (poll e p s)) = calls s @ [Poll p]"
  "api_process (snd (poll e p t)) = api_process t"
  "streamlit_process (snd (poll e p t)) = streamlit_process t"
  by (simp_all add: poll_def)

lemma monitor_Suc_quiet:
  "sleep e 1 s = (Inr (), s1) \<Longrightarrow>
   (case api_process s1 of None \<Rightarrow> (False, s1) | Some p \<Rightarrow> poll e p s1) = (a, s2) \<Longrightarrow>
   (case streamlit_process s2 of None \<Rightarrow> (False, s2) | Some p \<Rightarrow> poll e p s2) = (b, s3) \<Longrightarrow>
   monitor e (Suc n) s =
     (if a then (Some (Inr ()), print ''API server stopped unexpectedly'' s2)
      else if b then (Some (Inr ()), print ''Streamlit dashboard stopped unexpectedly'' s3)
      else monitor e n s3)"
  by simp

lemma monitor_Suc_signal:
  "sleep e 1 s = (Inl x, s1) \<Longrightarrow> monitor e (Suc n) s = (Some (Inl x), s1)"
  by simp

lemma monitor_spec:
  "api_process (snd (monitor e n s)) = api_process s \<and>
   streamlit_process (snd (monitor e n s)) = streamlit_process s \<and>
   extends s (snd (monitor e n s)) ({Sleep 1} \<union> poll_calls s \<union> stop_calls s) \<and>
   (fst (monitor e n s) = None \<or> fst (monitor e n s) = Some (Inr ()) \<or>
    fst (monitor e n s) = Some (Inl (SystemExit 0)))"
proof (induction n arbitrary: s)
  case 0
  show ?case by (simp add: extends_refl)
next
  case (Suc n)
  let ?X = "{Sleep 1} \<union> poll_calls s \<union> stop_calls s"
  from sleep_cases[of e 1 s] show ?case
  proof
    assume q: "sleep e 1 s = (Inl (SystemExit 0), cleanup e (log_call (Sleep 1) s))"
    have "extends s (cleanup e (log_call (Sleep 1) s)) ?X"
      by (rule extends_trans[OF extends_step[of "log_call (Sleep 1) s" s "Sleep 1" ?X]
            cleanup_extends[of "log_call (Sleep 1) s" e]]) auto
    with q show ?thesis by simp
  next
    assume q: "sleep e 1 s = (Inr (), log_call (Sleep 1) s)"
    let ?s1 = "log_call (Sleep 1) s"
    obtain a s2 where A: "(case api_process ?s1 of None \<Rightarrow> (False, ?s1) | Some p \<Rightarrow> poll e p ?s1) = (a, s2)"
      by (cases "case api_process ?s1 of None \<Rightarrow> (False, ?s1) | Some p \<Rightarrow> poll e p ?s1") blast
    obtain b s3 where B: "(case streamlit_process s2 of None \<Rightarrow> (False, s2) | Some p \<Rightarrow> poll e p s2) = (b, s3)"
      by (cases "case streamlit_process s2 of None \<Rightarrow> (False, s2) | Some p \<Rightarrow> poll e p s2") blast
    have hA: "api_process s2 = api_process s \<and> streamlit_process s2 = streamlit_process s \<and>
      extends ?s1 s2 ?X"
    proof (cases "api_process s")
      case None
      with A have "s2 = ?s1" by simp
      then show ?thesis by (simp add: extends_def)
    next
      case (Some p)
      with A have s2: "s2 = snd (poll e p ?s1)" by simp
      have "Poll p \<in> ?X" using Some by (simp add: poll_calls_def owned_def)
      then show ?thesis unfolding s2 by (simp add: extends_def)
    qed
    have hB: "api_process s3 = api_process s \<and> streamlit_process s3 = streamlit_process s \<and>
      extends s2 s3 ?X"
    proof (cases "streamlit_process s2")
      case None
      with B have "s3 = s2" by simp
      then show ?thesis using hA by (simp add: extends_def)
    next
      case (Some p)
      with B have s3: "s3 = snd (poll e p s2)" by simp
      have "Poll p \<in> ?X" using Some hA by (simp add: poll_calls_def owned_def)
      then show ?thesis unfolding s3 using hA by (simp add: extends_def)
    qed
    have e1: "extends s ?s1 ?X" by (rule extends_step[where c="Sleep 1"]) simp_all
    have e12: "extends s s2 ?X" by (rule extends_trans[OF e1 hA[THEN conjunct2, THEN conjunct2]]) auto
    have e13: "extends s s3 ?X" by (rule extends_trans[OF e12 hB[THEN conjunct2, THEN conjunct2]]) auto
    have m: "monitor e (Suc n) s =
       (if a then (Some (Inr ()), print ''API server stopped unexpectedly'' s2)
        else if b then (Some (Inr ()), print ''Streamlit dashboard stopped unexpectedly'' s3)
        else monitor e n s3)"
      by (rule monitor_Suc_quiet[OF q A B])
    show ?thesis
    proof (cases a)
      case True
      then show ?thesis unfolding m using e12 hA by (simp add: extends_def)
    next
      case False
      note nA = this
      show ?thesis
      proof (cases b)
        case True
        then show ?thesis unfolding m using nA e13 hB by (simp add: extends_def)
      next
        case False
        have sc: "stop_calls s3 = stop_calls s" "poll_calls s3 = poll_calls s"
          using hB by (simp_all add: stop_calls_def poll_calls_def owned_def)
        have e4: "extends s3 (snd (monitor e n s3)) ?X"
          using Suc.IH[of s3] unfolding sc by blast
        have "extends s (snd (monitor e n s3)) ?X" by (rule extends_trans[OF e13 e4]) auto
        then show ?thesis unfolding m using nA False Suc.IH[of s3] hB by simp
      qed
    qed
  qed
qed

lemma monitoring_spec:
  "api_process (snd (monitoring e n s)) = api_process s \<and>
   streamlit_process (snd (monitoring e n s)) = streamlit_process s \<and>
   extends s (snd (monitoring e n s)) ({Sleep 1} \<union> poll_calls s \<union> stop_calls s) \<and>
   (fst (monitoring e n s) = None \<or> fst (monitoring e n s) = Some (Inr ()) \<or>
    fst (monitoring e n s) = Some (Inl (SystemExit 0)))"
proof -
  let ?X = "{Sleep 1} \<union> poll_calls s \<union> stop_calls s"
  let ?M = "monitor e n s"
  note M = monitor_spec[of e n s]
  have sc: "stop_calls (snd ?M) = stop_calls s"
    using M by (simp add: stop_calls_def owned_def)
  have e1: "extends s (snd ?M) ?X" using M by blast
  have e2: "extends s (cleanup e (snd ?M)) ?X"
    by (rule extends_trans[OF e1 cleanup_extends[of "snd ?M" e]]) (auto simp: sc)
  from M have "fst ?M = None \<or> fst ?M = Some (Inr ()) \<or> fst ?M = Some (Inl (SystemExit 0))"
    by (elim conjE)
  then consider (run) "fst ?M = None" | (brk) "fst ?M = Some (Inr ())"
    | (sig) "fst ?M = Some (Inl (SystemExit 0))" by auto
  then show ?thesis
  proof cases
    case run
    then have "monitoring e n s = (None, snd ?M)" by (cases ?M) (simp add: monitoring_def)
    then show ?thesis using M by simp
  next
    case brk
    then have "monitoring e n s = (Some (Inr ()), cleanup e (snd ?M))"
      by (cases ?M) (simp add: monitoring_def)
    then show ?thesis using M e2 by simp
  next
    case sig
    then have "monitoring e n s = (Some (Inl (SystemExit 0)), cleanup e (snd ?M))"
      by (cases ?M) (simp add: monitoring_def)
    then show ?thesis using M e2 by simp
  qed
qed

lemma main_cases:
  "\<exists>s0 rA sA. calls s0 = calls s \<and> api_process s0 = api_process s \<and>
     streamlit_process s0 = streamlit_process s \<and> status s0 = status s \<and>
     main_api e s0 = (rA, sA) \<and>
     ((\<exists>x. rA = Inl x \<and> main e fuel s = (Some (Inl x), sA)) \<or>
      (rA = Inr () \<and> (\<exists>rS sS. start_streamlit e sA = (rS, sS) \<and>
         ((\<exists>x. rS = Inl x \<and> main e fuel s = (Some (Inl x), sS)) \<or>
          (rS = Inr False \<and> main e fuel s = (Some (Inl (SystemExit 1)), cleanup e sS)) \<or>
          (rS = Inr True \<and> (\<exists>sM. calls sM = calls sS \<and> api_process sM = api_process sS \<and>
             streamlit_process sM = streamlit_process sS \<and> status sM = status sS \<and>
             main e fuel s = monitoring e fuel sM))))))"
proof -
  let ?s0 = "print (replicate 50 CHR ''='') (print ''Fraud Detection System Launcher'' s)"
  obtain rA sA where A: "main_api e ?s0 = (rA, sA)" by (cases "main_api e ?s0") blast
  obtain rS sS where S: "start_streamlit e sA = (rS, sS)" by (cases "start_streamlit e sA") blast
  let ?sM = "print (replicate 50 CHR ''='')
                   (print ''Press Ctrl+C to stop all services''
                     (print ''API: http://localhost:8001/docs''
                       (print ''Dashboard: http://localhost:8501''
                         (print ''Fraud Detection System is ready!'' sS))))"
  have m: "main e fuel s =
     (case rA of Inl x \<Rightarrow> (Some (Inl x), sA)
      | Inr u \<Rightarrow> (case rS of Inl x \<Rightarrow> (Some (Inl x), sS)
          | Inr False \<Rightarrow> (Some (Inl (SystemExit 1)), cleanup e sS)
          | Inr True \<Rightarrow> monitoring e fuel ?sM))"
    using A S unfolding main_def Let_def by (simp split: sum.splits bool.splits)
  have body: "(\<exists>x. rA = Inl x \<and> main e fuel s = (Some (Inl x), sA)) \<or>
      (rA = Inr () \<and> (\<exists>rS sS. start_streamlit e sA = (rS, sS) \<and>
         ((\<exists>x. rS = Inl x \<and> main e fuel s = (Some (Inl x), sS)) \<or>
          (rS = Inr False \<and> main e fuel s = (Some (Inl (SystemExit 1)), cleanup e sS)) \<or>
          (rS = Inr True \<and> (\<exists>sM. calls sM = calls sS \<and> api_process sM = api_process sS \<and>
             streamlit_process sM = streamlit_process sS \<and> status sM = status sS \<and>
             main e fuel s = monitoring e fuel sM)))))"
  proof (cases rA)
    case (Inl x)
    then show ?thesis using m by simp
  next
    case (Inr u)
    have "(\<exists>x. rS = Inl x \<and> main e fuel s = (Some (Inl x), sS)) \<or>
          (rS = Inr False \<and> main e fuel s = (Some (Inl (SystemExit 1)), cleanup e sS)) \<or>
          (rS = Inr True \<and> (\<exists>sM. calls sM = calls sS \<and> api_process sM = api_process sS \<and>
             streamlit_process sM = streamlit_process sS \<and> status sM = status sS \<and>
             main e fuel s = monitoring e fuel sM))"
    proof (cases rS)
      case (Inl x)
      then show ?thesis using m Inr by simp
    next
      case (Inr b)
      show ?thesis
      proof (cases b)
        case True
        have "calls ?sM = calls sS \<and> api_process ?sM = api_process sS \<and>
             streamlit_process ?sM = streamlit_process sS \<and> status ?sM = status sS \<and>
             main e fuel s = monitoring e fuel ?sM"
          using m \<open>rA = Inr u\<close> Inr True by simp
        then have "\<exists>sM. calls sM = calls sS \<and> api_process sM = api_process sS \<and>
             streamlit_process sM = streamlit_process sS \<and> status sM = status sS \<and>
             main e fuel s = monitoring e fuel sM" by (rule exI)
        then show ?thesis using Inr True by simp
      next
        case False
        then show ?thesis using m \<open>rA = Inr u\<close> Inr by simp
      qed
    qed
    then show ?thesis using Inr S by simp
  qed
  have "calls ?s0 = calls s \<and> api_process ?s0 = api_process s \<and>
     streamlit_process ?s0 = streamlit_process s \<and> status ?s0 = status s \<and>
     main_api e ?s0 = (rA, sA)" using A by simp
  with body show ?thesis by blast
qed

lemma start_system_snd:
  "snd (start_system e fuel) =
     (case fst (main e fuel init) of None \<Rightarrow> snd (main e fuel init)
      | Some r \<Rightarrow> cleanup e (snd (main e fuel init)))"
  by (cases "main e fuel init") (simp add: start_system_def split: option.splits)

lemma start_system_fst:
  "fst (start_system e fuel) = map_option exit_code_of (fst (main e fuel init))"
  by (cases "main e fuel init") (simp add: start_system_def split: option.splits)

lemma no_backend_owned:
  "api_process s = None \<Longrightarrow> streamlit_process s \<noteq> Some Backend \<Longrightarrow>
   stop_calls s \<subseteq> {c. subject c \<noteq> Some Backend} \<and> poll_calls s \<subseteq> {c. subject c \<noteq> Some Backend}"
  by (auto simp: stop_calls_def poll_calls_def owned_def)

lemma cleanup_no_backend:
  assumes "api_process s = None" "streamlit_process s \<noteq> Some Backend"
    "set (calls s) \<subseteq> {c. subject c \<noteq> Some Backend}"
  shows "set (calls (cleanup e s)) \<subseteq> {c. subject c \<noteq> Some Backend}"
  using extends_set[OF cleanup_extends[of s e]] no_backend_owned[OF assms(1,2)] assms(3) by blast

lemma monitoring_no_backend:
  assumes "api_process s = None" "streamlit_process s \<noteq> Some Backend"
    "set (calls s) \<subseteq> {c. subject c \<noteq> Some Backend}"
  shows "set (calls (snd (monitoring e n s))) \<subseteq> {c. subject c \<noteq> Some Backend}"
proof -
  have "extends s (snd (monitoring e n s)) ({Sleep 1} \<union> poll_calls s \<union> stop_calls s)"
    using monitoring_spec[of e n s] by (elim conjE)
  from extends_set[OF this] no_backend_owned[OF assms(1,2)] assms(3) show ?thesis by auto
qed

lemma main_external:
  assumes p0: "probe e 0 = Response 200"
  shows "api_process (snd (main e fuel init)) = None \<and>
         streamlit_process (snd (main e fuel init)) \<noteq> Some Backend \<and>
         set (calls (snd (main e fuel init))) \<subseteq> {c. subject c \<noteq> Some Backend} \<and>
         (\<exists>rest. calls (snd (main e fuel init)) = HttpGet 3 # Popen Frontend # rest)"
proof -
  let ?F = "{c. subject c \<noteq> Some Backend}"
  obtain s0 rA sA where s0: "calls s0 = calls init" "api_process s0 = api_process init"
      "streamlit_process s0 = streamlit_process init"
    and A: "main_api e s0 = (rA, sA)"
    and cs: "(\<exists>x. rA = Inl x \<and> main e fuel init = (Some (Inl x), sA)) \<or>
      (rA = Inr () \<and> (\<exists>rS sS. start_streamlit e sA = (rS, sS) \<and>
         ((\<exists>x. rS = Inl x \<and> main e fuel init = (Some (Inl x), sS)) \<or>
          (rS = Inr False \<and> main e fuel init = (Some (Inl (SystemExit 1)), cleanup e sS)) \<or>
          (rS = Inr True \<and> (\<exists>sM. calls sM = calls sS \<and> api_process sM = api_process sS \<and>
             streamlit_process sM = streamlit_process sS \<and> status sM = status sS \<and>
             main e fuel init = monitoring e fuel sM)))))"
    using main_cases[of init e fuel] by blast
  have i0: "calls s0 = []" "api_process s0 = None" "streamlit_process s0 = None"
    using s0 by (simp_all add: init_def)
  have "main_api e s0 = (Inr (), print ''API server is already running'' (log_call (HttpGet 3) s0))"
    using p0 i0 by (simp add: main_api_def check_api_running_eq)
  with A have rA: "rA = Inr ()" and sA: "calls sA = [HttpGet 3]" "api_process sA = None"
      "streamlit_process sA = None"
    using i0 by auto
  from cs rA obtain rS sS where S: "start_streamlit e sA = (rS, sS)"
    and cs2: "(\<exists>x. rS = Inl x \<and> main e fuel init = (Some (Inl x), sS)) \<or>
          (rS = Inr False \<and> main e fuel init = (Some (Inl (SystemExit 1)), cleanup e sS)) \<or>
          (rS = Inr True \<and> (\<exists>sM. calls sM = calls sS \<and> api_process sM = api_process sS \<and>
             streamlit_process sM = streamlit_process sS \<and> status sM = status sS \<and>
             main e fuel init = monitoring e fuel sM))"
    by auto
  note sp = start_streamlit_spec[of e sA, unfolded S, simplified]
  from sp sA have hS: "api_process sS = None" "streamlit_process sS \<noteq> Some Backend" by auto
  from sp obtain ys where ys: "calls sS = calls sA @ Popen Frontend # ys"
    "set ys \<subseteq> {Sleep 3} \<union> stop_calls (sA\<lparr>streamlit_process := Some Frontend\<rparr>)" by blast
  have "stop_calls (sA\<lparr>streamlit_process := Some Frontend\<rparr>) \<subseteq> ?F"
    using sA by (auto simp: stop_calls_def owned_def)
  with ys sA have cS: "calls sS = HttpGet 3 # Popen Frontend # ys" "set (calls sS) \<subseteq> ?F" by auto
  from cs2 show ?thesis
  proof (elim disjE exE conjE)
    fix x assume "main e fuel init = (Some (Inl x), sS)"
    then show ?thesis using hS cS by simp
  next
    assume m: "main e fuel init = (Some (Inl (SystemExit 1)), cleanup e sS)"
    obtain zs where "calls (cleanup e sS) = calls sS @ zs" using cleanup_new[of e sS] by blast
    then have "\<exists>rest. calls (cleanup e sS) = HttpGet 3 # Popen Frontend # rest" using cS(1) by simp
    then show ?thesis unfolding m using hS cleanup_no_backend[OF hS cS(2), of e] by simp
  next
    fix sM assume sM: "calls sM = calls sS" "api_process sM = api_process sS"
      "streamlit_process sM = streamlit_process sS"
      and m: "main e fuel init = monitoring e fuel sM"
    have hM: "api_process sM = None" "streamlit_process sM \<noteq> Some Backend"
      "set (calls sM) \<subseteq> ?F" using sM hS cS by simp_all
    note ms = monitoring_spec[of e fuel sM]
    from ms obtain zs where "calls (snd (monitoring e fuel sM)) = calls sM @ zs"
      unfolding extends_def by blast
    then have "\<exists>rest. calls (snd (monitoring e fuel sM)) = HttpGet 3 # Popen Frontend # rest"
      using sM cS(1) by simp
    then show ?thesis unfolding m using ms hM monitoring_no_backend[OF hM, of e fuel] by simp
  qed
qed

lemma stop_calls_no_poll: "stop_calls s \<subseteq> {c. \<forall>p. c \<noteq> Poll p}"
  by (auto simp: stop_calls_def)

lemma cleanup_no_poll:
  "set (calls s) \<subseteq> {c. \<forall>p. c \<noteq> Poll p} \<Longrightarrow> set (calls (cleanup e s)) \<subseteq> {c. \<forall>p. c \<noteq> Poll p}"
  using extends_set[OF cleanup_extends[of s e]] stop_calls_no_poll[of s] by blast

lemma main_result:
  "fst (main e fuel init) = None \<or> fst (main e fuel init) = Some (Inr ()) \<or>
   fst (main e fuel init) = Some (Inl (SystemExit 0)) \<or>
   fst (main e fuel init) = Some (Inl (SystemExit 1)) \<and>
     set (calls (snd (main e fuel init))) \<subseteq> {c. \<forall>p. c \<noteq> Poll p}"
proof -
  let ?NP = "{c. \<forall>p. c \<noteq> Poll p}"
  obtain s0 rA sA where s0: "calls s0 = calls init"
    and A: "main_api e s0 = (rA, sA)"
    and cs: "(\<exists>x. rA = Inl x \<and> main e fuel init = (Some (Inl x), sA)) \<or>
      (rA = Inr () \<and> (\<exists>rS sS. start_streamlit e sA = (rS, sS) \<and>
         ((\<exists>x. rS = Inl x \<and> main e fuel init = (Some (Inl x), sS)) \<or>
          (rS = Inr False \<and> main e fuel init = (Some (Inl (SystemExit 1)), cleanup e sS)) \<or>
          (rS = Inr True \<and> (\<exists>sM. calls sM = calls sS \<and> api_process sM = api_process sS \<and>
             streamlit_process sM = streamlit_process sS \<and> status sM = status sS \<and>
             main e fuel init = monitoring e fuel sM)))))"
    using main_cases[of init e fuel] by blast
  have "extends s0 sA ({Popen Backend, Sleep 1, HttpGet 3} \<union> stop_calls (s0\<lparr>api_process := Some Backend\<rparr>))"
    using main_api_spec[of e s0] A by simp
  from extends_set[OF this] stop_calls_no_poll[of "s0\<lparr>api_process := Some Backend\<rparr>"] s0
  have npA: "set (calls sA) \<subseteq> ?NP" by (auto simp: init_def)
  have rA: "rA = Inl (SystemExit 0) \<or> rA = Inl (SystemExit 1) \<or> rA = Inr ()"
    using main_api_spec[of e s0] A by auto
  from cs show ?thesis
  proof (elim disjE exE conjE)
    fix x assume "rA = Inl x" "main e fuel init = (Some (Inl x), sA)"
    then show ?thesis using rA npA by auto
  next
    fix rS sS x assume S: "start_streamlit e sA = (rS, sS)" and "rS = Inl x"
      and m: "main e fuel init = (Some (Inl x), sS)"
    from start_streamlit_spec[of e sA] S \<open>rS = Inl x\<close> have "x = SystemExit 0" by auto
    then show ?thesis using m by simp
  next
    fix rS sS assume S: "start_streamlit e sA = (rS, sS)"
      and m: "main e fuel init = (Some (Inl (SystemExit 1)), cleanup e sS)"
    from start_streamlit_spec[of e sA] S obtain ys where ys: "calls sS = calls sA @ Popen Frontend # ys"
      "set ys \<subseteq> {Sleep 3} \<union> stop_calls (sA\<lparr>streamlit_process := Some Frontend\<rparr>)" by auto
    have "set (calls sS) \<subseteq> ?NP"
      using ys npA stop_calls_no_poll[of "sA\<lparr>streamlit_process := Some Frontend\<rparr>"] by auto
    then have "set (calls (cleanup e sS)) \<subseteq> ?NP" by (rule cleanup_no_poll)
    then show ?thesis using m by simp
  next
    fix rS sS sM assume m: "main e fuel init = monitoring e fuel sM"
    have "fst (monitoring e fuel sM) = None \<or> fst (monitoring e fuel sM) = Some (Inr ()) \<or>
      fst (monitoring e fuel sM) = Some (Inl (SystemExit 0))"
      using monitoring_spec[of e fuel sM] by (elim conjE)
    then show ?thesis unfolding m by auto
  qed
qed

lemma gated_none: "Popen Frontend \<notin> set cs \<Longrightarrow> gated e cs"
  by (auto simp: gated_def)

lemma gated_append:
  assumes "gated e cs" "Popen Frontend \<notin> set zs"
  shows "gated e (cs @ zs)"
  unfolding gated_def
proof (intro allI impI)
  fix xs ys assume eq: "cs @ zs = xs @ Popen Frontend # ys"
  then obtain us where "cs = xs @ us \<and> us @ zs = Popen Frontend # ys \<or>
      cs @ us = xs \<and> zs = us @ Popen Frontend # ys"
    by (auto simp: append_eq_append_conv2)
  then show "seen_ready e xs"
  proof (elim disjE conjE)
    assume c: "cs = xs @ us" and u: "us @ zs = Popen Frontend # ys"
    show ?thesis
    proof (cases us)
      case Nil
      with u assms(2) show ?thesis by auto
    next
      case (Cons u us')
      with u have "u = Popen Frontend" by simp
      with c Cons have "cs = xs @ Popen Frontend # us'" by simp
      with assms(1) show ?thesis unfolding gated_def by blast
    qed
  next
    assume "zs = us @ Popen Frontend # ys"
    with assms(2) show ?thesis by auto
  qed
qed

lemma gated_spawn:
  assumes "Popen Frontend \<notin> set pre" "seen_ready e pre" "Popen Frontend \<notin> set zs"
  shows "gated e (pre @ Popen Frontend # zs)"
  unfolding gated_def
proof (intro allI impI)
  fix xs ys assume eq: "pre @ Popen Frontend # zs = xs @ Popen Frontend # ys"
  then obtain us where "pre = xs @ us \<and> us @ Popen Frontend # zs = Popen Frontend # ys \<or>
      pre @ us = xs \<and> Popen Frontend # zs = us @ Popen Frontend # ys"
    by (auto simp: append_eq_append_conv2)
  then show "seen_ready e xs"
  proof (elim disjE conjE)
    assume c: "pre = xs @ us" and u: "us @ Popen Frontend # zs = Popen Frontend # ys"
    show ?thesis
    proof (cases us)
      case Nil
      with c assms(2) show ?thesis by simp
    next
      case (Cons u us')
      with u have "u = Popen Frontend" by simp
      with c Cons assms(1) show ?thesis by simp
    qed
  next
    assume "pre @ us = xs"
    then show ?thesis using assms(2) seen_ready_append by blast
  qed
qed

lemma extends_gated:
  "gated e (calls s) \<Longrightarrow> extends s s' X \<Longrightarrow> Popen Frontend \<notin> X \<Longrightarrow> gated e (calls s')"
  unfolding extends_def using gated_append by fastforce

lemma stop_calls_no_spawn: "Popen Frontend \<notin> stop_calls s"
  by (simp add: stop_calls_def)

lemma poll_calls_no_spawn: "Popen Frontend \<notin> poll_calls s"
  by (simp add: poll_calls_def)

lemma cleanup_gated: "gated e (calls s) \<Longrightarrow> gated e (calls (cleanup e s))"
  by (rule extends_gated[OF _ cleanup_extends]) (simp_all add: stop_calls_no_spawn)

lemma main_gated: "gated e (calls (snd (main e fuel init)))"
proof -
  obtain s0 rA sA where s0: "calls s0 = calls init"
    and A: "main_api e s0 = (rA, sA)"
    and cs: "(\<exists>x. rA = Inl x \<and> main e fuel init = (Some (Inl x), sA)) \<or>
      (rA = Inr () \<and> (\<exists>rS sS. start_streamlit e sA = (rS, sS) \<and>
         ((\<exists>x. rS = Inl x \<and> main e fuel init = (Some (Inl x), sS)) \<or>
          (rS = Inr False \<and> main e fuel init = (Some (Inl (SystemExit 1)), cleanup e sS)) \<or>
          (rS = Inr True \<and> (\<exists>sM. calls sM = calls sS \<and> api_process sM = api_process sS \<and>
             streamlit_process sM = streamlit_process sS \<and> status sM = status sS \<and>
             main e fuel init = monitoring e fuel sM)))))"
    using main_cases[of init e fuel] by blast
  have exA: "extends s0 sA ({Popen Backend, Sleep 1, HttpGet 3} \<union> stop_calls (s0\<lparr>api_process := Some Backend\<rparr>))"
    using main_api_spec[of e s0] A by simp
  have c0: "calls s0 = []" using s0 by (simp add: init_def)
  from extends_set[OF exA] c0 stop_calls_no_spawn[of "s0\<lparr>api_process := Some Backend\<rparr>"]
  have nfA: "Popen Frontend \<notin> set (calls sA)" by auto
  have rdy: "rA = Inr () \<Longrightarrow> seen_ready e (calls sA)"
    using main_api_spec[of e s0] A by auto
  have after: "gated e (calls sS)" if S: "start_streamlit e sA = (rS, sS)" and "rA = Inr ()" for rS sS
  proof -
    from start_streamlit_spec[of e sA] S obtain ys where ys: "calls sS = calls sA @ Popen Frontend # ys"
      "set ys \<subseteq> {Sleep 3} \<union> stop_calls (sA\<lparr>streamlit_process := Some Frontend\<rparr>)" by auto
    have "Popen Frontend \<notin> set ys"
      using ys(2) stop_calls_no_spawn[of "sA\<lparr>streamlit_process := Some Frontend\<rparr>"] by auto
    then show ?thesis unfolding ys(1) using nfA rdy[OF that(2)] by (intro gated_spawn)
  qed
  from cs show ?thesis
  proof (elim disjE exE conjE)
    fix x assume "main e fuel init = (Some (Inl x), sA)"
    then show ?thesis using gated_none[OF nfA] by simp
  next
    fix rS sS x assume "rA = Inr ()" "start_streamlit e sA = (rS, sS)"
      and m: "main e fuel init = (Some (Inl x), sS)"
    then show ?thesis using after by simp
  next
    fix rS sS assume "rA = Inr ()" "start_streamlit e sA = (rS, sS)"
      and m: "main e fuel init = (Some (Inl (SystemExit 1)), cleanup e sS)"
    then show ?thesis using cleanup_gated[OF after] by simp
  next
    fix rS sS sM assume a: "rA = Inr ()" "start_streamlit e sA = (rS, sS)"
      and sM: "calls sM = calls sS"
      and m: "main e fuel init = monitoring e fuel sM"
    have g: "gated e (calls sM)" using after[OF a(2,1)] sM by simp
    have "extends sM (snd (monitoring e fuel sM)) ({Sleep 1} \<union> poll_calls sM \<union> stop_calls sM)"
      using monitoring_spec[of e fuel sM] by (elim conjE)
    from extends_gated[OF g this] show ?thesis unfolding m
      by (simp add: stop_calls_no_spawn poll_calls_no_spawn)
  qed
qed

lemma start_system_gated: "gated e (calls (snd (start_system e fuel)))"
  unfolding start_system_snd
  by (cases "fst (main e fuel init)") (simp_all add: main_gated cleanup_gated)

lemma rd_check_api_running_eq:
  "rd_check_api_running e s = (probe e (n_gets (calls s)) = Response 200, log_call (HttpGet 5) s)"
  by (simp add: rd_check_api_running_def split: probe_outcome.splits)

lemma rd_sleep_cases:
  "rd_sleep e t s = (Inr (), log_call (Sleep t) s) \<or> (\<exists>x. rd_sleep e t s = (Inl x, log_call (Sleep t) s))"
  by (simp add: rd_sleep_def split: option.splits signum.splits)

lemma rd_start_api_loop_spec:
  "extends s (snd (rd_start_api_loop e n i s)) {Sleep 1, HttpGet 5} \<and>
   (fst (rd_start_api_loop e n i s) = Inr True \<longrightarrow>
      seen_ready e (calls (snd (rd_start_api_loop e n i s))))"
proof (induction n arbitrary: i s)
  case 0
  show ?case by (simp add: extends_refl)
next
  case (Suc n)
  let ?X = "{Sleep 1, HttpGet 5}"
  from rd_sleep_cases[of e 1 s] show ?case
  proof (elim disjE exE)
    fix x assume q: "rd_sleep e 1 s = (Inl x, log_call (Sleep 1) s)"
    have "extends s (log_call (Sleep 1) s) ?X" by (rule extends_step[where c="Sleep 1"]) simp_all
    with q show ?thesis by simp
  next
    assume q: "rd_sleep e 1 s = (Inr (), log_call (Sleep 1) s)"
    let ?s1 = "log_call (HttpGet 5) (log_call (Sleep 1) s)"
    have e1: "extends s ?s1 ?X" by (auto simp: extends_def)
    show ?thesis
    proof (cases "probe e (n_gets (calls s)) = Response 200")
      case True
      have "seen_ready e (calls ?s1)"
        unfolding seen_ready_def using True by (intro exI[of _ "n_gets (calls s)"]) simp
      then show ?thesis using q True e1 by (simp add: rd_check_api_running_eq extends_def)
    next
      case False
      let ?s2 = "print (''   Checking... ('' @ str_nat (i + 1) @ ''/10)'') ?s1"
      have step: "rd_start_api_loop e (Suc n) i s = rd_start_api_loop e n (i + 1) ?s2"
        using q False by (simp add: rd_check_api_running_eq)
      have e2: "extends s ?s2 ?X" by (auto simp: extends_def)
      have e3: "extends ?s2 (snd (rd_start_api_loop e n (i + 1) ?s2)) ?X"
        using Suc.IH[where s="?s2" and i="i + 1"] by blast
      have "extends s (snd (rd_start_api_loop e n (i + 1) ?s2)) ?X"
        by (rule extends_trans[OF e2 e3]) auto
      then show ?thesis unfolding step using Suc.IH[where s="?s2" and i="i + 1"] by simp
    qed
  qed
qed

lemma rd_start_api_spec:
  "extends s (snd (rd_start_api e s)) {Popen Backend, Sleep 1, HttpGet 5, Terminate Backend} \<and>
   ((\<exists>p. fst (rd_start_api e s) = Inr (Some p)) \<longrightarrow> seen_ready e (calls (snd (rd_start_api e s))))"
proof -
  let ?X = "{Popen Backend, Sleep 1, HttpGet 5, Terminate Backend}"
  let ?s0 = "print ''Starting API server...'' s"
  from popen_cases[of e Backend ?s0] show ?thesis
  proof (elim disjE conjE exE)
    fix msg assume p: "popen e Backend ?s0 = (Inl msg, log_call (Popen Backend) ?s0)"
    have "extends s (print (''Failed to start API server: '' @ msg) (log_call (Popen Backend) ?s0)) ?X"
      by (rule extends_step[where c="Popen Backend"]) simp_all
    then show ?thesis using p by (simp add: rd_start_api_def Let_def)
  next
    assume p: "popen e Backend ?s0 = (Inr Backend, set_status Backend Alive (log_call (Popen Backend) ?s0))"
    let ?s2 = "print ''Waiting for API to start...'' (set_status Backend Alive (log_call (Popen Backend) ?s0))"
    let ?L = "rd_start_api_loop e 10 0 ?s2"
    note L = rd_start_api_loop_spec[of ?s2 e 10 0]
    have e1: "extends s ?s2 ?X" by (rule extends_step[where c="Popen Backend"]) simp_all
    have e2: "extends ?s2 (snd ?L) {Sleep 1, HttpGet 5}" using L by blast
    have e3: "extends s (snd ?L) ?X" by (rule extends_trans[OF e1 e2]) auto
    have e4: "extends s (terminate Backend (print ''API server failed to start within 10 seconds'' (snd ?L))) ?X"
      by (rule extends_trans[OF e3 extends_step[where c="Terminate Backend" and X="?X"]]) auto
    obtain r s3 where Leq: "?L = (r, s3)" by (cases ?L) blast
    have unf: "rd_start_api e s =
       (case r of Inl x \<Rightarrow> (Inl x, s3) | Inr True \<Rightarrow> (Inr (Some Backend), s3)
        | Inr False \<Rightarrow> (Inr None, terminate Backend (print ''API server failed to start within 10 seconds'' s3)))"
      using p Leq by (simp add: rd_start_api_def Let_def split: sum.splits bool.splits)
    show ?thesis
    proof (cases r)
      case (Inl x)
      then show ?thesis unfolding unf using e3 Leq by simp
    next
      case (Inr b)
      show ?thesis
      proof (cases b)
        case True
        then show ?thesis unfolding unf using e3 L Leq Inr by simp
      next
        case False
        then show ?thesis unfolding unf using e4 Leq Inr by simp
      qed
    qed
  qed
qed

lemma rd_main_api_spec:
  "extends s (snd (rd_main_api e s)) {Popen Backend, Sleep 1, HttpGet 5, Terminate Backend} \<and>
   ((\<exists>h. fst (rd_main_api e s) = Inr h) \<longrightarrow> seen_ready e (calls (snd (rd_main_api e s))))"
proof (cases "probe e (n_gets (calls s)) = Response 200")
  case True
  have m: "rd_main_api e s = (Inr None, print ''API server is already running'' (log_call (HttpGet 5) s))"
    using True by (simp add: rd_main_api_def rd_check_api_running_eq)
  have "seen_ready e (calls s @ [HttpGet 5])"
    unfolding seen_ready_def using True by (intro exI[of _ "n_gets (calls s)"]) simp
  then show ?thesis unfolding m by (simp add: extends_def)
next
  case False
  let ?X = "{Popen Backend, Sleep 1, HttpGet 5, Terminate Backend}"
  let ?s1 = "log_call (HttpGet 5) s"
  obtain r s2 where A: "rd_start_api e ?s1 = (r, s2)" by (cases "rd_start_api e ?s1") blast
  have m: "rd_main_api e s =
      (case r of Inl x \<Rightarrow> (Inl x, s2) | Inr (Some p) \<Rightarrow> (Inr (Some p), s2)
       | Inr None \<Rightarrow> (Inl (SystemExit 1), print ''Cannot start dashboard without API server'' s2))"
    using False A by (simp add: rd_main_api_def rd_check_api_running_eq split: sum.splits option.splits)
  note sp = rd_start_api_spec[of ?s1 e]
  have e1: "extends s ?s1 ?X" by (rule extends_step[where c="HttpGet 5"]) simp_all
  have e2: "extends ?s1 s2 ?X" using sp A by simp
  have e3: "extends s s2 ?X" by (rule extends_trans[OF e1 e2]) auto
  show ?thesis
  proof (cases r)
    case (Inl x)
    then show ?thesis unfolding m using e3 by simp
  next
    case (Inr h)
    show ?thesis
    proof (cases h)
      case None
      then show ?thesis unfolding m using e3 Inr by (simp add: extends_def)
    next
      case (Some p)
      then show ?thesis unfolding m using e3 Inr sp A by simp
    qed
  qed
qed

lemma rd_wait_streamlit_extends:
  "extends s (snd (rd_wait_streamlit e a f s)) {c. c \<noteq> Popen Frontend}"
proof -
  have "\<exists>ys. calls (snd (rd_wait_streamlit e a f s)) = calls s @ ys \<and> Popen Frontend \<notin> set ys"
    by (cases a) (simp_all add: rd_wait_streamlit_def Let_def split: option.splits abrupt.splits)
  then show ?thesis unfolding extends_def by auto
qed

lemma rd_main_gated: "gated e (calls (snd (rd_main e rd_init)))"
proof -
  let ?s0 = "print (replicate 50 CHR ''='') (print ''Fraud Detection Dashboard Launcher'' rd_init)"
  obtain rA sA where A: "rd_main_api e ?s0 = (rA, sA)" by (cases "rd_main_api e ?s0") blast
  note sp = rd_main_api_spec[of ?s0 e]
  have "extends ?s0 sA {Popen Backend, Sleep 1, HttpGet 5, Terminate Backend}" using sp A by simp
  from extends_set[OF this] have nfA: "Popen Frontend \<notin> set (calls sA)" by (auto simp: rd_init_def)
  show ?thesis
  proof (cases rA)
    case (Inl x)
    then have "rd_main e rd_init = (Some (Inl x), sA)" using A by (simp add: rd_main_def Let_def)
    then show ?thesis using gated_none[OF nfA] by simp
  next
    case (Inr h)
    then have rdy: "seen_ready e (calls sA)" using sp A by simp
    let ?p0 = "print ''Starting Streamlit dashboard...'' sA"
    from popen_cases[of e Frontend ?p0] show ?thesis
    proof (elim disjE conjE exE)
      fix msg assume p: "popen e Frontend ?p0 = (Inl msg, log_call (Popen Frontend) ?p0)"
      let ?s4 = "print (''Failed to start Streamlit: '' @ msg) (log_call (Popen Frontend) ?p0)"
      have m: "rd_main e rd_init = (Some (Inl (SystemExit 1)), (case h of None \<Rightarrow> ?s4 | Some q \<Rightarrow> terminate q ?s4))"
        using A Inr p by (cases h) (simp_all add: rd_main_def rd_start_streamlit_def Let_def)
      have "\<exists>zs. calls (case h of None \<Rightarrow> ?s4 | Some q \<Rightarrow> terminate q ?s4) = calls sA @ Popen Frontend # zs \<and>
          Popen Frontend \<notin> set zs" by (cases h) simp_all
      then obtain zs where "calls (case h of None \<Rightarrow> ?s4 | Some q \<Rightarrow> terminate q ?s4) = calls sA @ Popen Frontend # zs"
        "Popen Frontend \<notin> set zs" by blast
      then show ?thesis unfolding m using gated_spawn[OF nfA rdy] by simp
    next
      assume p: "popen e Frontend ?p0 = (Inr Frontend, set_status Frontend Alive (log_call (Popen Frontend) ?p0))"
      let ?s4 = "set_status Frontend Alive (log_call (Popen Frontend) ?p0)"
      let ?s5 = "print ''Press Ctrl+C to stop all services''
                   (print ''API: http://localhost:8001/docs''
                     (print ''Dashboard: http://localhost:8501''
                       (print ''Fraud Detection System is ready!'' ?s4)))"
      have m: "rd_main e rd_init = rd_wait_streamlit e h Frontend ?s5"
        using A Inr p by (simp add: rd_main_def rd_start_streamlit_def Let_def)
      have "gated e (calls ?s5)" using gated_spawn[OF nfA rdy, of "[]"] by simp
      from extends_gated[OF this rd_wait_streamlit_extends[of ?s5 e h Frontend]]
      show ?thesis unfolding m by simp
    qed
  qed
qed

lemma popen_ok:
  "spawn e p = None \<Longrightarrow> popen e p s = (Inr p, set_status p Alive (log_call (Popen p) s))"
  by (simp add: popen_def)

lemma start_api_timeout:
  assumes sp: "spawn e Backend = None"
    and sg: "\<forall>j<15. signal_at e (n_sleeps (calls s) + j) = None"
    and pr: "\<forall>j<15. probe e (n_gets (calls s) + j) \<noteq> Response 200"
  shows "fst (start_api e s) = Inr False \<and>
         calls (snd (start_api e s)) =
           calls s @ Popen Backend # concat (replicate 15 [Sleep 1, HttpGet 3]) @ [Terminate Backend] \<and>
         api_process (snd (start_api e s)) = Some Backend \<and>
         streamlit_process (snd (start_api e s)) = streamlit_process s \<and>
         status (snd (start_api e s)) = (status s)(Backend := Alive) \<and>
         ''API server failed to start within 15 seconds'' \<in> set (stdout (snd (start_api e s)))"
proof -
  let ?s2 = "print ''Waiting for API to start...''
     ((set_status Backend Alive (log_call (Popen Backend) (print ''Starting API server...'' s)))
        \<lparr>api_process := Some Backend\<rparr>)"
  let ?L = "start_api_loop e 15 0 ?s2"
  have a: "\<forall>j<15. signal_at e (n_sleeps (calls ?s2) + j) = None" using sg by simp
  have b: "\<forall>j<15. probe e (n_gets (calls ?s2) + j) \<noteq> Response 200" using pr by simp
  note L = start_api_loop_all_fail[OF a b, of 0]
  obtain r s3 where Leq: "?L = (r, s3)" by (cases ?L) blast
  from L Leq have r: "r = Inr False"
    and s3: "calls s3 = calls ?s2 @ concat (replicate 15 [Sleep 1, HttpGet 3])"
      "status s3 = status ?s2" "api_process s3 = Some Backend"
      "streamlit_process s3 = streamlit_process s"
    by simp_all
  have "start_api e s =
      (Inr False, terminate Backend (print ''API server failed to start within 15 seconds'' s3))"
    using Leq r s3(3) by (simp add: start_api_def Let_def popen_ok[OF sp])
  then show ?thesis using s3 by simp
qed

lemma start_api_success:
  assumes sp: "spawn e Backend = None"
    and sg: "\<forall>j\<le>k. signal_at e (n_sleeps (calls s) + j) = None"
    and pr: "\<forall>j<k. probe e (n_gets (calls s) + j) \<noteq> Response 200"
    and ok: "probe e (n_gets (calls s) + k) = Response 200"
    and k: "k < 15"
  shows "fst (start_api e s) = Inr True \<and>
         calls (snd (start_api e s)) =
           calls s @ Popen Backend # concat (replicate (Suc k) [Sleep 1, HttpGet 3]) \<and>
         api_process (snd (start_api e s)) = Some Backend \<and>
         streamlit_process (snd (start_api e s)) = streamlit_process s"
proof -
  let ?s2 = "print ''Waiting for API to start...''
     ((set_status Backend Alive (log_call (Popen Backend) (print ''Starting API server...'' s)))
        \<lparr>api_process := Some Backend\<rparr>)"
  let ?L = "start_api_loop e 15 0 ?s2"
  have a: "\<forall>j\<le>k. signal_at e (n_sleeps (calls ?s2) + j) = None" using sg by simp
  have b: "\<forall>j<k. probe e (n_gets (calls ?s2) + j) \<noteq> Response 200" using pr by simp
  have c: "probe e (n_gets (calls ?s2) + k) = Response 200" using ok by simp
  note L = start_api_loop_success[OF a b c k, of 0]
  obtain r s3 where Leq: "?L = (r, s3)" by (cases ?L) blast
  from L Leq have r: "r = Inr True"
    and s3: "calls s3 = calls ?s2 @ concat (replicate (Suc k) [Sleep 1, HttpGet 3])"
      "api_process s3 = Some Backend" "streamlit_process s3 = streamlit_process s"
    by simp_all
  have "start_api e s = (Inr True, s3)"
    using Leq r by (simp add: start_api_def Let_def popen_ok[OF sp])
  then show ?thesis using s3 by simp
qed

lemma main_init_timeout:
  assumes sp: "spawn e Backend = None"
    and pr: "\<forall>k. probe e k \<noteq> Response 200"
    and sg: "\<forall>j<15. signal_at e j = None"
  shows "fst (main e fuel init) = Some (Inl (SystemExit 1)) \<and>
         calls (snd (main e fuel init)) =
           [HttpGet 3, Popen Backend] @ concat (replicate 15 [Sleep 1, HttpGet 3]) @ [Terminate Backend] \<and>
         api_process (snd (main e fuel init)) = Some Backend \<and>
         streamlit_process (snd (main e fuel init)) = None \<and>
         status (snd (main e fuel init)) Backend = Alive \<and>
         ''API server failed to start within 15 seconds'' \<in> set (stdout (snd (main e fuel init)))"
proof -
  let ?s0 = "print (replicate 50 CHR ''='') (print ''Fraud Detection System Launcher'' init)"
  let ?s1 = "log_call (HttpGet 3) ?s0"
  have c1: "calls ?s1 = [HttpGet 3]" "streamlit_process ?s1 = None" by (simp_all add: init_def)
  have a: "\<forall>j<15. signal_at e (n_sleeps (calls ?s1) + j) = None" using sg c1 by simp
  have b: "\<forall>j<15. probe e (n_gets (calls ?s1) + j) \<noteq> Response 200" using pr by simp
  note T = start_api_timeout[OF sp a b]
  obtain r s2 where A: "start_api e ?s1 = (r, s2)" by (cases "start_api e ?s1") blast
  from T A have r: "r = Inr False"
    and s2: "calls s2 = calls ?s1 @ Popen Backend # concat (replicate 15 [Sleep 1, HttpGet 3]) @ [Terminate Backend]"
      "api_process s2 = Some Backend" "streamlit_process s2 = None"
      "status s2 = (status ?s1)(Backend := Alive)"
      "''API server failed to start within 15 seconds'' \<in> set (stdout s2)"
    using c1 by simp_all
  have "probe e (n_gets (calls ?s0)) \<noteq> Response 200" using pr by simp
  then have "main_api e ?s0 =
      (Inl (SystemExit 1), print ''Cannot start system without API server'' s2)"
    using A r by (simp add: main_api_def check_api_running_eq)
  then have "main e fuel init =
      (Some (Inl (SystemExit 1)), print ''Cannot start system without API server'' s2)"
    by (simp add: main_def Let_def)
  then show ?thesis using s2 c1 by simp
qed

lemma n_gets_zero: "\<forall>c \<in> set cs. \<forall>t. c \<noteq> HttpGet t \<Longrightarrow> n_gets cs = 0"
  by (induction cs) (auto simp: n_gets_def split: call.splits)

lemma stop_calls_no_get: "HttpGet t \<notin> stop_calls s"
  by (simp add: stop_calls_def)

lemma poll_calls_no_get: "HttpGet t \<notin> poll_calls s"
  by (simp add: poll_calls_def)

lemma cleanup_rest_no_get:
  "\<exists>zs. calls (cleanup e s) = calls s @ zs \<and> n_gets zs = 0"
proof -
  obtain zs where zs: "calls (cleanup e s) = calls s @ zs" "set zs \<subseteq> stop_calls s"
    using cleanup_new[of e s] by blast
  have "n_gets zs = 0" using zs(2) stop_calls_no_get[of _ s] by (intro n_gets_zero) blast
  with zs(1) show ?thesis by blast
qed

lemma monitoring_rest_no_get:
  "\<exists>zs. calls (snd (monitoring e n s)) = calls s @ zs \<and> n_gets zs = 0"
proof -
  have "extends s (snd (monitoring e n s)) ({Sleep 1} \<union> poll_calls s \<union> stop_calls s)"
    using monitoring_spec[of e n s] by (elim conjE)
  then obtain zs where zs: "calls (snd (monitoring e n s)) = calls s @ zs"
    "set zs \<subseteq> {Sleep 1} \<union> poll_calls s \<union> stop_calls s" unfolding extends_def by blast
  have "n_gets zs = 0"
    using zs(2) stop_calls_no_get[of _ s] poll_calls_no_get[of _ s] by (intro n_gets_zero) blast
  with zs(1) show ?thesis by blast
qed

lemma main_after_api_ready:
  assumes A: "main_api e (print (replicate 50 CHR ''='') (print ''Fraud Detection System Launcher'' init))
                = (Inr (), sA)"
  shows "\<exists>rest. calls (snd (main e fuel init)) = calls sA @ Popen Frontend # rest \<and> n_gets rest = 0"
proof -
  obtain rS sS where S: "start_streamlit e sA = (rS, sS)" by (cases "start_streamlit e sA") blast
  from start_streamlit_spec[of e sA] S obtain ys where ys: "calls sS = calls sA @ Popen Frontend # ys"
      "set ys \<subseteq> {Sleep 3} \<union> stop_calls (sA\<lparr>streamlit_process := Some Frontend\<rparr>)" by auto
  have g0: "n_gets ys = 0"
    using ys(2) stop_calls_no_get[of _ "sA\<lparr>streamlit_process := Some Frontend\<rparr>"]
    by (intro n_gets_zero) blast
  let ?sM = "print (replicate 50 CHR ''='')
                   (print ''Press Ctrl+C to stop all services''
                     (print ''API: http://localhost:8001/docs''
                       (print ''Dashboard: http://localhost:8501''
                         (print ''Fraud Detection System is ready!'' sS))))"
  have m: "main e fuel init =
     (case rS of Inl x \<Rightarrow> (Some (Inl x), sS)
      | Inr False \<Rightarrow> (Some (Inl (SystemExit 1)), cleanup e sS)
      | Inr True \<Rightarrow> monitoring e fuel ?sM)"
    using A S unfolding main_def Let_def by (simp split: sum.splits bool.splits)
  have "\<exists>zs. calls (snd (main e fuel init)) = calls sS @ zs \<and> n_gets zs = 0"
  proof (cases rS)
    case (Inl x)
    then show ?thesis unfolding m by simp
  next
    case (Inr b)
    show ?thesis
    proof (cases b)
      case True
      then show ?thesis unfolding m using Inr monitoring_rest_no_get[of e fuel ?sM] by simp
    next
      case False
      then show ?thesis unfolding m using Inr cleanup_rest_no_get[of e sS] by simp
    qed
  qed
  then obtain zs where zs: "calls (snd (main e fuel init)) = calls sS @ zs" "n_gets zs = 0" by blast
  have "calls (snd (main e fuel init)) = calls sA @ Popen Frontend # (ys @ zs) \<and> n_gets (ys @ zs) = 0"
    using zs ys(1) g0 by simp
  then show ?thesis by blast
qed



lemma exit_code_ended_run:
  assumes "start_system e fuel = (Some code, s)"
  shows "(code = 0 \<or> code = 1) \<and>
         ((\<exists>p. Poll p \<in> set (calls s)) \<longrightarrow> code = 0) \<and>
         (\<forall>p. owned s p \<longrightarrow> Terminate p \<in> set (calls s) \<and> status s p \<noteq> Alive)"
proof -
  obtain r m where M: "main e fuel init = (r, m)" by (cases "main e fuel init") blast
  from assms M obtain r' where r: "r = Some r'" and code: "code = exit_code_of r'"
    and s: "s = cleanup e m"
    by (auto simp: start_system_def split: option.splits)
  have own: "\<forall>p. owned s p \<longrightarrow> Terminate p \<in> set (calls s) \<and> status s p \<noteq> Alive"
  proof (intro allI impI)
    fix p assume "owned s p"
    then have "owned m p" unfolding s by (simp add: owned_def)
    then show "Terminate p \<in> set (calls s) \<and> status s p \<noteq> Alive"
      unfolding s by (rule cleanup_owned_stopped)
  qed
  from main_result[of e fuel] M r
  have "r' = Inr () \<or> r' = Inl (SystemExit 0) \<or>
        r' = Inl (SystemExit 1) \<and> set (calls m) \<subseteq> {c. \<forall>p. c \<noteq> Poll p}" by auto
  then have "(code = 0 \<or> code = 1) \<and> ((\<exists>p. Poll p \<in> set (calls s)) \<longrightarrow> code = 0)"
  proof (elim disjE conjE)
    assume "r' = Inr ()" then show ?thesis using code by (simp add: exit_code_of_def)
  next
    assume "r' = Inl (SystemExit 0)" then show ?thesis using code by (simp add: exit_code_of_def)
  next
    assume r1: "r' = Inl (SystemExit 1)" and "set (calls m) \<subseteq> {c. \<forall>p. c \<noteq> Poll p}"
    then have "set (calls s) \<subseteq> {c. \<forall>p. c \<noteq> Poll p}" unfolding s by (intro cleanup_no_poll)
    then have "\<not> (\<exists>p. Poll p \<in> set (calls s))" by blast
    then show ?thesis using code r1 by (simp add: exit_code_of_def)
  qed
  with own show ?thesis by blast
qed

lemma start_api_loop_result:
  "(fst (start_api_loop e n i s) = Inr False \<longrightarrow>
      (\<forall>j<n. signal_at e (n_sleeps (calls s) + j) = None \<and>
              probe e (n_gets (calls s) + j) \<noteq> Response 200)) \<and>
   (fst (start_api_loop e n i s) = Inr True \<longrightarrow>
      (\<exists>k<n. (\<forall>j\<le>k. signal_at e (n_sleeps (calls s) + j) = None) \<and>
             (\<forall>j<k. probe e (n_gets (calls s) + j) \<noteq> Response 200) \<and>
             probe e (n_gets (calls s) + k) = Response 200))"
proof (induction n arbitrary: i s)
  case 0
  show ?case by simp
next
  case (Suc n)
  from sleep_cases[of e 1 s] show ?case
  proof
    assume q: "sleep e 1 s = (Inl (SystemExit 0), cleanup e (log_call (Sleep 1) s))"
    then show ?thesis by simp
  next
    assume q: "sleep e 1 s = (Inr (), log_call (Sleep 1) s)"
    have sg0: "signal_at e (n_sleeps (calls s)) = None"
    proof (rule ccontr)
      assume "signal_at e (n_sleeps (calls s)) \<noteq> None"
      then have "fst (sleep e 1 s) = Inl (SystemExit 0)"
        by (auto simp: sleep_def signal_handler_def)
      with q show False by simp
    qed
    show ?thesis
    proof (cases "probe e (n_gets (calls s)) = Response 200")
      case True
      have r: "fst (start_api_loop e (Suc n) i s) = Inr True"
        using q True by (simp add: check_api_running_eq)
      have "(\<forall>j\<le>0. signal_at e (n_sleeps (calls s) + j) = None) \<and>
             (\<forall>j<0. probe e (n_gets (calls s) + j) \<noteq> Response 200) \<and>
             probe e (n_gets (calls s) + 0) = Response 200" using sg0 True by simp
      then have "\<exists>k<Suc n. (\<forall>j\<le>k. signal_at e (n_sleeps (calls s) + j) = None) \<and>
             (\<forall>j<k. probe e (n_gets (calls s) + j) \<noteq> Response 200) \<and>
             probe e (n_gets (calls s) + k) = Response 200" by blast
      with r show ?thesis by simp
    next
      case False
      let ?s2 = "print (''   Checking... ('' @ str_nat (i + 1) @ ''/15)'')
                   (log_call (HttpGet 3) (log_call (Sleep 1) s))"
      have step: "start_api_loop e (Suc n) i s = start_api_loop e n (i + 1) ?s2"
        using q False by (simp add: check_api_running_eq)
      have ns: "n_sleeps (calls ?s2) = Suc (n_sleeps (calls s))"
        "n_gets (calls ?s2) = Suc (n_gets (calls s))" by simp_all
      note IH = Suc.IH[of "i + 1" ?s2, unfolded ns]
      have a: "\<forall>j<Suc n. signal_at e (n_sleeps (calls s) + j) = None \<and>
              probe e (n_gets (calls s) + j) \<noteq> Response 200"
        if "fst (start_api_loop e n (i + 1) ?s2) = Inr False"
      proof (intro allI impI)
        fix j assume j: "j < Suc n"
        show "signal_at e (n_sleeps (calls s) + j) = None \<and>
              probe e (n_gets (calls s) + j) \<noteq> Response 200"
        proof (cases j)
          case 0
          then show ?thesis using sg0 False by simp
        next
          case (Suc j')
          with j have "j' < n" by simp
          with IH that have "signal_at e (Suc (n_sleeps (calls s)) + j') = None \<and>
              probe e (Suc (n_gets (calls s)) + j') \<noteq> Response 200" by blast
          then show ?thesis using Suc by simp
        qed
      qed
      have b: "\<exists>k<Suc n. (\<forall>j\<le>k. signal_at e (n_sleeps (calls s) + j) = None) \<and>
             (\<forall>j<k. probe e (n_gets (calls s) + j) \<noteq> Response 200) \<and>
             probe e (n_gets (calls s) + k) = Response 200"
        if "fst (start_api_loop e n (i + 1) ?s2) = Inr True"
      proof -
        from IH that obtain k where k: "k < n"
          "\<forall>j\<le>k. signal_at e (Suc (n_sleeps (calls s)) + j) = None"
          "\<forall>j<k. probe e (Suc (n_gets (calls s)) + j) \<noteq> Response 200"
          "probe e (Suc (n_gets (calls s)) + k) = Response 200" by blast
        have 1: "\<forall>j\<le>Suc k. signal_at e (n_sleeps (calls s) + j) = None"
        proof (intro allI impI)
          fix j assume "j \<le> Suc k"
          then show "signal_at e (n_sleeps (calls s) + j) = None"
            using sg0 k(2)[rule_format, of "j - 1"] by (cases j) simp_all
        qed
        have 2: "\<forall>j<Suc k. probe e (n_gets (calls s) + j) \<noteq> Response 200"
        proof (intro allI impI)
          fix j assume "j < Suc k"
          then show "probe e (n_gets (calls s) + j) \<noteq> Response 200"
            using False k(3)[rule_format, of "j - 1"] by (cases j) simp_all
        qed
        have 3: "probe e (n_gets (calls s) + Suc k) = Response 200" using k(4) by simp
        have "Suc k < Suc n" using k(1) by simp
        with 1 2 3 show ?thesis by blast
      qed
      show ?thesis unfolding step using a b by blast
    qed
  qed
qed

lemma popen_raises:
  "spawn e p = Some msg \<Longrightarrow> popen e p s = (Inl msg, log_call (Popen p) s)"
  by (simp add: popen_def)

lemma start_api_spawn_error:
  "spawn e Backend \<noteq> None \<Longrightarrow> fst (start_api e s) = Inr False"
  by (auto simp: start_api_def Let_def popen_raises)

lemma start_api_result:
  "(fst (start_api e s) = Inr False \<longrightarrow>
      spawn e Backend \<noteq> None \<or>
      (\<forall>j<15. signal_at e (n_sleeps (calls s) + j) = None \<and>
               probe e (n_gets (calls s) + j) \<noteq> Response 200)) \<and>
   (fst (start_api e s) = Inr True \<longrightarrow>
      spawn e Backend = None \<and>
      (\<exists>k<15. (\<forall>j\<le>k. signal_at e (n_sleeps (calls s) + j) = None) \<and>
              (\<forall>j<k. probe e (n_gets (calls s) + j) \<noteq> Response 200) \<and>
              probe e (n_gets (calls s) + k) = Response 200))"
proof (cases "spawn e Backend")
  case (Some msg)
  then have "fst (start_api e s) = Inr False" by (intro start_api_spawn_error) simp
  then show ?thesis using Some by simp
next
  case None
  let ?s2 = "print ''Waiting for API to start...''
     ((set_status Backend Alive (log_call (Popen Backend) (print ''Starting API server...'' s)))
        \<lparr>api_process := Some Backend\<rparr>)"
  let ?L = "start_api_loop e 15 0 ?s2"
  have ns: "n_sleeps (calls ?s2) = n_sleeps (calls s)" "n_gets (calls ?s2) = n_gets (calls s)"
    by simp_all
  note R = start_api_loop_result[of e 15 0 ?s2, unfolded ns]
  obtain r s3 where Leq: "?L = (r, s3)" by (cases ?L) blast
  have "api_process s3 = Some Backend"
    using start_api_loop_spec[of e 15 0 ?s2] Leq by simp
  then have unf: "fst (start_api e s) = (case r of Inl x \<Rightarrow> Inl x | Inr b \<Rightarrow> Inr b)"
    using Leq by (simp add: start_api_def Let_def popen_ok[OF None] split: sum.splits bool.splits)
  have fr: "fst ?L = r" using Leq by simp
  show ?thesis
  proof (cases r)
    case (Inl x)
    then show ?thesis unfolding unf by simp
  next
    case (Inr b)
    then have "fst (start_api e s) = Inr b" unfolding unf by simp
    then show ?thesis using R None Inr unfolding fr by auto
  qed
qed

lemma start_streamlit_fails_iff:
  "fst (start_streamlit e s) = Inr False \<longleftrightarrow> spawn e Frontend \<noteq> None"
proof (cases "spawn e Frontend")
  case (Some msg)
  then show ?thesis by (simp add: start_streamlit_def Let_def popen_raises)
next
  case None
  let ?s1 = "(set_status Frontend Alive (log_call (Popen Frontend)
               (print ''Starting Streamlit dashboard...'' s)))\<lparr>streamlit_process := Some Frontend\<rparr>"
  have "fst (start_streamlit e s) \<noteq> Inr False"
    using sleep_cases[of e 3 ?s1] by (auto simp: start_streamlit_def Let_def popen_ok[OF None])
  then show ?thesis using None by simp
qed

lemma polls_time_out_iff:
  "polls_time_out e \<longleftrightarrow> (\<forall>j<15. signal_at e j = None \<and> probe e (Suc j) \<noteq> Response 200)"
  by (simp add: polls_time_out_def Ball_def)

lemma backend_ready_at_iff:
  "backend_ready_at e k \<longleftrightarrow>
     (\<forall>j\<le>k. signal_at e j = None) \<and> (\<forall>j<k. probe e (Suc j) \<noteq> Response 200) \<and>
     probe e (Suc k) = Response 200"
  by (simp add: backend_ready_at_def Ball_def)

lemma main_api_exit_1_iff:
  assumes c0: "calls s0 = []"
  shows "fst (main_api e s0) = Inl (SystemExit 1) \<longleftrightarrow>
         probe e 0 \<noteq> Response 200 \<and> (spawn e Backend \<noteq> None \<or> polls_time_out e)"
proof (cases "probe e 0 = Response 200")
  case True
  then have "fst (main_api e s0) = Inr ()" using c0 by (simp add: main_api_def check_api_running_eq)
  then show ?thesis using True by simp
next
  case False
  let ?s1 = "log_call (HttpGet 3) s0"
  obtain r s2 where A: "start_api e ?s1 = (r, s2)" by (cases "start_api e ?s1") blast
  have m: "fst (main_api e s0) = (case r of Inl x \<Rightarrow> Inl x | Inr True \<Rightarrow> Inr ()
                                  | Inr False \<Rightarrow> Inl (SystemExit 1))"
    using False A c0 by (simp add: main_api_def check_api_running_eq split: sum.splits bool.splits)
  have ns: "n_sleeps (calls ?s1) = 0" "n_gets (calls ?s1) = 1" using c0 by simp_all
  note R = start_api_result[of e ?s1, unfolded ns A fst_conv]
  note S = start_api_spec[of e ?s1, unfolded A fst_conv snd_conv]
  have rx: "r = Inl (SystemExit 0) \<or> r = Inr False \<or> r = Inr True" using S by blast
  have fwd: "r = Inr False \<Longrightarrow> spawn e Backend \<noteq> None \<or> polls_time_out e"
    using R by (auto simp: polls_time_out_iff)
  have bwd1: "spawn e Backend \<noteq> None \<Longrightarrow> r = Inr False"
    using start_api_spawn_error[of e ?s1] A by simp
  have bwd2: "r = Inr False" if "spawn e Backend = None" "polls_time_out e"
  proof -
    have a: "\<forall>j<15. signal_at e (n_sleeps (calls ?s1) + j) = None"
      using that(2) unfolding ns by (simp add: polls_time_out_iff)
    have b: "\<forall>j<15. probe e (n_gets (calls ?s1) + j) \<noteq> Response 200"
      using that(2) unfolding ns by (simp add: polls_time_out_iff)
    from start_api_timeout[OF that(1) a b] A show ?thesis by simp
  qed
  show ?thesis
  proof
    assume "fst (main_api e s0) = Inl (SystemExit 1)"
    then have "r = Inr False" unfolding m using rx by auto
    then show "probe e 0 \<noteq> Response 200 \<and> (spawn e Backend \<noteq> None \<or> polls_time_out e)"
      using False fwd by blast
  next
    assume "probe e 0 \<noteq> Response 200 \<and> (spawn e Backend \<noteq> None \<or> polls_time_out e)"
    then have "r = Inr False" using bwd1 bwd2 by (cases "spawn e Backend") auto
    then show "fst (main_api e s0) = Inl (SystemExit 1)" unfolding m by simp
  qed
qed

lemma main_api_ready_iff:
  assumes c0: "calls s0 = []"
  shows "fst (main_api e s0) = Inr () \<longleftrightarrow>
         probe e 0 = Response 200 \<or>
         spawn e Backend = None \<and> (\<exists>k \<in> {..<15}. backend_ready_at e k)"
proof (cases "probe e 0 = Response 200")
  case True
  then have "fst (main_api e s0) = Inr ()" using c0 by (simp add: main_api_def check_api_running_eq)
  then show ?thesis using True by simp
next
  case False
  let ?s1 = "log_call (HttpGet 3) s0"
  obtain r s2 where A: "start_api e ?s1 = (r, s2)" by (cases "start_api e ?s1") blast
  have m: "fst (main_api e s0) = (case r of Inl x \<Rightarrow> Inl x | Inr True \<Rightarrow> Inr ()
                                  | Inr False \<Rightarrow> Inl (SystemExit 1))"
    using False A c0 by (simp add: main_api_def check_api_running_eq split: sum.splits bool.splits)
  have ns: "n_sleeps (calls ?s1) = 0" "n_gets (calls ?s1) = 1" using c0 by simp_all
  note R = start_api_result[of e ?s1, unfolded ns A fst_conv]
  have fwd: "r = Inr True \<Longrightarrow> spawn e Backend = None \<and> (\<exists>k \<in> {..<15}. backend_ready_at e k)"
    using R by (auto simp: backend_ready_at_iff)
  have bwd: "r = Inr True" if sp: "spawn e Backend = None" and k: "k < 15" "backend_ready_at e k" for k
  proof -
    have a: "\<forall>j\<le>k. signal_at e (n_sleeps (calls ?s1) + j) = None"
      using k(2) unfolding ns by (simp add: backend_ready_at_iff)
    have b: "\<forall>j<k. probe e (n_gets (calls ?s1) + j) \<noteq> Response 200"
      using k(2) unfolding ns by (simp add: backend_ready_at_iff)
    have c: "probe e (n_gets (calls ?s1) + k) = Response 200"
      using k(2) unfolding ns by (simp add: backend_ready_at_iff)
    from start_api_success[OF sp a b c k(1)] A show ?thesis by simp
  qed
  show ?thesis
  proof
    assume "fst (main_api e s0) = Inr ()"
    then have "r = Inr True" unfolding m by (auto split: sum.splits bool.splits)
    then show "probe e 0 = Response 200 \<or>
         spawn e Backend = None \<and> (\<exists>k \<in> {..<15}. backend_ready_at e k)" using fwd by blast
  next
    assume "probe e 0 = Response 200 \<or>
         spawn e Backend = None \<and> (\<exists>k \<in> {..<15}. backend_ready_at e k)"
    with False obtain k where "spawn e Backend = None" "k < 15" "backend_ready_at e k" by auto
    then have "r = Inr True" by (rule bwd)
    then show "fst (main_api e s0) = Inr ()" unfolding m by simp
  qed
qed

lemma polls_exclusive:
  "polls_time_out e \<Longrightarrow> k < 15 \<Longrightarrow> backend_ready_at e k \<Longrightarrow> False"
  by (auto simp: polls_time_out_iff backend_ready_at_iff)

lemma main_exit_1_iff:
  "fst (main e fuel init) = Some (Inl (SystemExit 1)) \<longleftrightarrow> startup_fails e"
proof -
  obtain s0 rA sA where s0: "calls s0 = calls init"
    and A: "main_api e s0 = (rA, sA)"
    and cs: "(\<exists>x. rA = Inl x \<and> main e fuel init = (Some (Inl x), sA)) \<or>
      (rA = Inr () \<and> (\<exists>rS sS. start_streamlit e sA = (rS, sS) \<and>
         ((\<exists>x. rS = Inl x \<and> main e fuel init = (Some (Inl x), sS)) \<or>
          (rS = Inr False \<and> main e fuel init = (Some (Inl (SystemExit 1)), cleanup e sS)) \<or>
          (rS = Inr True \<and> (\<exists>sM. calls sM = calls sS \<and> api_process sM = api_process sS \<and>
             streamlit_process sM = streamlit_process sS \<and> status sM = status sS \<and>
             main e fuel init = monitoring e fuel sM)))))"
    using main_cases[of init e fuel] by blast
  have c0: "calls s0 = []" using s0 by (simp add: init_def)
  note X = main_api_exit_1_iff[OF c0, of e, unfolded A fst_conv]
  note Y = main_api_ready_iff[OF c0, of e, unfolded A fst_conv]
  have sf: "startup_fails e \<longleftrightarrow>
      rA = Inl (SystemExit 1) \<or> rA = Inr () \<and> spawn e Frontend \<noteq> None"
  proof (cases "probe e 0 = Response 200")
    case True
    then show ?thesis using X Y by (simp add: startup_fails_def)
  next
    case False
    show ?thesis
    proof (cases "spawn e Backend \<noteq> None \<or> polls_time_out e")
      case True
      then show ?thesis using X False by (auto simp: startup_fails_def)
    next
      case nf: False
      then have "rA \<noteq> Inl (SystemExit 1)" using X by blast
      then show ?thesis using Y False nf by (auto simp: startup_fails_def)
    qed
  qed
  from cs show ?thesis
  proof (elim disjE exE conjE)
    fix x assume x: "rA = Inl x" "main e fuel init = (Some (Inl x), sA)"
    then show ?thesis unfolding sf by auto
  next
    fix rS sS x assume r: "rA = Inr ()" and S: "start_streamlit e sA = (rS, sS)"
      and rs: "rS = Inl x" and m: "main e fuel init = (Some (Inl x), sS)"
    from start_streamlit_spec[of e sA] S rs have x0: "x = SystemExit 0" by auto
    have "fst (start_streamlit e sA) \<noteq> Inr False" using S rs by simp
    then have "spawn e Frontend = None" using start_streamlit_fails_iff[of e sA] by blast
    then show ?thesis unfolding sf using r m x0 by simp
  next
    fix rS sS assume r: "rA = Inr ()" and S: "start_streamlit e sA = (rS, sS)"
      and rs: "rS = Inr False" and m: "main e fuel init = (Some (Inl (SystemExit 1)), cleanup e sS)"
    have "fst (start_streamlit e sA) = Inr False" using S rs by simp
    then have "spawn e Frontend \<noteq> None" using start_streamlit_fails_iff[of e sA] by blast
    then show ?thesis unfolding sf using r m by simp
  next
    fix rS sS sM assume r: "rA = Inr ()" and S: "start_streamlit e sA = (rS, sS)"
      and rs: "rS = Inr True" and m: "main e fuel init = monitoring e fuel sM"
    have "fst (start_streamlit e sA) \<noteq> Inr False" using S rs by simp
    then have nf: "spawn e Frontend = None" using start_streamlit_fails_iff[of e sA] by blast
    have "fst (monitoring e fuel sM) \<noteq> Some (Inl (SystemExit 1))"
      using monitoring_spec[of e fuel sM] by auto
    then show ?thesis unfolding sf m using r nf by simp
  qed
qed

section \<open>The readiness probe\<close>

text \<open>
  C8. Each call of the readiness probe, in either launcher, issues exactly one health
  request and nothing else. Its result is ready exactly when the answer is a response with
  status 200; a connection failure, a timeout and any other status give the same result
  and the same state, so the caller cannot tell them apart.
\<close>

theorem check_api_running_single_uniform:
  "fst (check_api_running e s) = (probe e (n_gets (calls s)) = Response 200) \<and>
   snd (check_api_running e s) = log_call (HttpGet 3) s \<and>
   fst (rd_check_api_running e w) = (probe e (n_gets (calls w)) = Response 200) \<and>
   snd (rd_check_api_running e w) = log_call (HttpGet 5) w"
  by (simp add: check_api_running_def rd_check_api_running_def split: probe_outcome.splits)

section \<open>Stopping the children\<close>

text \<open>
  C6, as the code has it. For every owned handle whose process is alive, \<^verbatim>\<open>cleanup\<close> calls
  terminate, then waits up to five seconds; when the wait times out it calls kill, and
  that is the last call on the handle. The exit status is collected only when the child
  exits within the five seconds: no wait follows the kill, so a killed child is left
  dead and unreaped.
\<close>

theorem cleanup_terminate_wait_kill:
  assumes "owned s p" "status s p = Alive" "streamlit_process s \<noteq> api_process s"
  shows "filter (\<lambda>c. subject c = Some p) (drop (length (calls s)) (calls (cleanup e s))) =
           [Terminate p, Wait p 5] @ (if exits_in_grace e p then [] else [Kill p]) \<and>
         status (cleanup e s) p = (if exits_in_grace e p then Reaped else Dead)"
  using assms
  by (auto simp: cleanup_calls_explicit cleanup_status stop_handle_status owned_def
           split: option.splits)

theorem cleanup_terminate_wait_kill_witness:
  "filter (\<lambda>c. subject c = Some Backend)
     (drop (length (calls both_running)) (calls (cleanup env_ok both_running))) =
     [Terminate Backend, Wait Backend 5] \<and>
   status (cleanup env_ok both_running) Backend = Reaped"
  using cleanup_terminate_wait_kill[of both_running Backend env_ok]
  by (simp add: owned_def both_running_def env_ok_def)

text \<open>
  C6 as stated fails: with a frontend that ignores the termination request, the calls of
  \<^verbatim>\<open>cleanup\<close> end with the kill and the exit status is never collected.
\<close>

theorem cleanup_kill_not_reaped_counterexample:
  "calls (cleanup (env_ok\<lparr>exits_in_grace := (\<lambda>p. False)\<rparr>) frontend_running) =
     [Terminate Frontend, Wait Frontend 5, Kill Frontend] \<and>
   status (cleanup (env_ok\<lparr>exits_in_grace := (\<lambda>p. False)\<rparr>) frontend_running) Frontend = Dead \<and>
   status (cleanup (env_ok\<lparr>exits_in_grace := (\<lambda>p. False)\<rparr>) frontend_running) Frontend \<noteq> Reaped"
  by (simp add: cleanup_calls_explicit cleanup_status stop_handle_status frontend_running_def env_ok_def)

text \<open>
  C3, as the code has it. \<^verbatim>\<open>cleanup\<close> has no guard. With both handles absent it issues
  no call and changes no process. A second invocation prints its two lines again and calls
  terminate and wait again on every owned handle; it never kills, since no owned process
  is alive after the first invocation, and it leaves every owned process reaped.
\<close>

theorem cleanup_twice:
  "(streamlit_process s = None \<and> api_process s = None \<longrightarrow>
      calls (cleanup e s) = calls s \<and> status (cleanup e s) = status s) \<and>
   calls (cleanup e (cleanup e s)) = calls (cleanup e s) @
     (case streamlit_process s of None \<Rightarrow> [] | Some p \<Rightarrow> [Terminate p, Wait p 5]) @
     (case api_process s of None \<Rightarrow> [] | Some q \<Rightarrow> [Terminate q, Wait q 5]) \<and>
   stdout (cleanup e (cleanup e s)) = stdout (cleanup e s) @
     [''Shutting down services...'', ''All services stopped''] \<and>
   (\<forall>p. owned s p \<longrightarrow> status (cleanup e s) p \<noteq> Alive \<and> status (cleanup e (cleanup e s)) p = Reaped)"
proof -
  have a: "streamlit_process s = None \<and> api_process s = None \<longrightarrow>
      calls (cleanup e s) = calls s \<and> status (cleanup e s) = status s"
    by (simp add: cleanup_calls cleanup_status stop_handle_None)
  have d: "\<forall>p. owned s p \<longrightarrow> status (cleanup e s) p \<noteq> Alive \<and> status (cleanup e (cleanup e s)) p = Reaped"
    using cleanup_not_alive cleanup_again_status by blast
  show ?thesis using a d cleanup_again_calls[of e s] cleanup_stdout[of e "cleanup e s"] by blast
qed

theorem cleanup_twice_witness:
  "owned both_running Backend \<and>
   calls (cleanup env_ok (cleanup env_ok both_running)) =
     calls (cleanup env_ok both_running) @
     [Terminate Frontend, Wait Frontend 5, Terminate Backend, Wait Backend 5] \<and>
   status (cleanup env_ok (cleanup env_ok both_running)) Backend = Reaped"
proof -
  have o: "owned both_running Backend" by (simp add: owned_def both_running_def)
  have s: "streamlit_process both_running = Some Frontend" "api_process both_running = Some Backend"
    by (simp_all add: both_running_def)
  have c: "calls (cleanup env_ok (cleanup env_ok both_running)) =
     calls (cleanup env_ok both_running) @
     [Terminate Frontend, Wait Frontend 5, Terminate Backend, Wait Backend 5]"
    using cleanup_twice[of both_running env_ok] unfolding s by simp
  have "status (cleanup env_ok (cleanup env_ok both_running)) Backend = Reaped"
    using cleanup_twice[of both_running env_ok] o by blast
  with o c show ?thesis by blast
qed

text \<open>
  C3 as stated fails: the second invocation of \<^verbatim>\<open>cleanup\<close> is not a no-op, it calls
  terminate and wait on the frontend again.
\<close>

theorem cleanup_second_call_counterexample:
  "calls (cleanup env_ok frontend_running) = [Terminate Frontend, Wait Frontend 5] \<and>
   calls (cleanup env_ok (cleanup env_ok frontend_running)) =
     [Terminate Frontend, Wait Frontend 5, Terminate Frontend, Wait Frontend 5]"
  by (simp add: cleanup_calls_explicit cleanup_status stop_handle_status frontend_running_def
        env_ok_def)

section \<open>Signals\<close>

text \<open>
  C2, as the code has it. There is no shutdown flag. A signal delivered during a sleep
  runs \<^verbatim>\<open>signal_handler\<close>, which itself calls \<^verbatim>\<open>cleanup\<close>, so that terminate is called on
  every owned handle inside the handler, and then raises \<^verbatim>\<open>SystemExit(0)\<close>.
\<close>

theorem signal_handler_runs_cleanup:
  assumes "signal_at e (n_sleeps (calls s)) = Some sg"
  shows "sleep e t s = (Inl (SystemExit 0), cleanup e (log_call (Sleep t) s)) \<and>
         signal_handler e sg s = (Inl (SystemExit 0), cleanup e s) \<and>
         (\<forall>p. owned s p \<longrightarrow>
            Terminate p \<in> set (drop (length (calls s)) (calls (snd (signal_handler e sg s)))) \<and>
            Terminate p \<in> set (drop (length (calls s)) (calls (snd (sleep e t s)))))"
  using assms
  by (auto simp: sleep_def signal_handler_def cleanup_calls_explicit owned_def split: option.splits)

theorem signal_handler_runs_cleanup_witness:
  "signal_at (env_ok\<lparr>signal_at := (\<lambda>t. Some SIGTERM)\<rparr>) (n_sleeps (calls both_running)) = Some SIGTERM \<and>
   owned both_running Backend \<and>
   Terminate Backend \<in> set (drop (length (calls both_running))
     (calls (snd (sleep (env_ok\<lparr>signal_at := (\<lambda>t. Some SIGTERM)\<rparr>) 1 both_running))))"
proof -
  let ?e = "env_ok\<lparr>signal_at := (\<lambda>t. Some SIGTERM)\<rparr>"
  have h: "signal_at ?e (n_sleeps (calls both_running)) = Some SIGTERM" by simp
  have o: "owned both_running Backend" by (simp add: owned_def both_running_def)
  have "\<forall>p. owned both_running p \<longrightarrow>
          Terminate p \<in> set (drop (length (calls both_running))
            (calls (snd (signal_handler ?e SIGTERM both_running)))) \<and>
          Terminate p \<in> set (drop (length (calls both_running))
            (calls (snd (sleep ?e 1 both_running))))"
    using signal_handler_runs_cleanup[OF h, of 1] by (rule conjunct2[THEN conjunct2])
  with o have "Terminate Backend \<in> set (drop (length (calls both_running))
            (calls (snd (sleep ?e 1 both_running))))" by blast
  with h o show ?thesis by blast
qed

text \<open>
  C2 as stated fails: with both children running, the handler itself issues the terminate
  and wait calls on both.
\<close>

theorem signal_handler_terminates_counterexample:
  "calls (snd (signal_handler env_ok SIGINT both_running)) =
     [Terminate Frontend, Wait Frontend 5, Terminate Backend, Wait Backend 5] \<and>
   calls (snd (sleep (env_ok\<lparr>signal_at := (\<lambda>t. Some SIGINT)\<rparr>) 1 both_running)) =
     [Sleep 1, Terminate Frontend, Wait Frontend 5, Terminate Backend, Wait Backend 5]"
  by (simp add: signal_handler_def sleep_def cleanup_calls_explicit stop_handle_status
        both_running_def env_ok_def)

section \<open>A backend that was already running\<close>

text \<open>
  C7. When the first health request, made before anything is spawned, is answered with
  status 200, the launcher goes straight to spawning the frontend; it never holds a
  backend handle, and no call it issues at any later point of the run, on any path
  (monitoring, signal, failed frontend start, exit hook), is about the backend process.
\<close>

theorem external_backend_untouched:
  assumes "probe e 0 = Response 200"
  shows "api_process (snd (start_system e fuel)) = None \<and>
         (\<forall>c \<in> set (calls (snd (start_system e fuel))). subject c \<noteq> Some Backend) \<and>
         (\<exists>rest. calls (snd (start_system e fuel)) = HttpGet 3 # Popen Frontend # rest)"
proof -
  let ?m = "snd (main e fuel init)"
  note M = main_external[OF assms, of fuel]
  from M have h: "api_process ?m = None" "streamlit_process ?m \<noteq> Some Backend"
    "set (calls ?m) \<subseteq> {c. subject c \<noteq> Some Backend}" by blast+
  from M obtain rest where rest: "calls ?m = HttpGet 3 # Popen Frontend # rest" by blast
  show ?thesis
  proof (cases "fst (main e fuel init)")
    case None
    then have "snd (start_system e fuel) = ?m" by (simp add: start_system_snd)
    then show ?thesis using h rest by auto
  next
    case (Some r)
    then have f: "snd (start_system e fuel) = cleanup e ?m" by (simp add: start_system_snd)
    obtain zs where "calls (cleanup e ?m) = calls ?m @ zs" using cleanup_new[of e ?m] by blast
    then have "\<exists>rest. calls (cleanup e ?m) = HttpGet 3 # Popen Frontend # rest" using rest by simp
    then show ?thesis unfolding f using h cleanup_no_backend[OF h, of e] by auto
  qed
qed

theorem external_backend_untouched_witness:
  "probe env_ok 0 = Response 200 \<and>
   api_process (snd (start_system env_ok 2)) = None \<and>
   Terminate Backend \<notin> set (calls (snd (start_system env_ok 2))) \<and>
   Poll Backend \<notin> set (calls (snd (start_system env_ok 2)))"
proof -
  have h: "probe env_ok 0 = Response 200" by (simp add: env_ok_def)
  from external_backend_untouched[OF h, of 2] h show ?thesis by fastforce
qed

section \<open>The exit code\<close>

text \<open>
  C1, as the code has it. The exit code is 1 exactly when the startup fails, and then it
  is 1 whatever the number of monitoring iterations observed: the backend is not found
  running and its spawn raises, or its 15 polls all pass without a signal and without an
  answer with status 200; or the backend is ready (found running, or ready at one of the
  15 polls with no signal until then) and the spawn of the frontend raises. In every
  other run the launcher is still running or exits with code 0: so it does when a signal
  ends it, at any sleep, and so it does when it leaves the monitoring loop because an
  owned child was found not alive, since every run that polled a child exits with 0. In
  every run that ends, terminate has been called on each owned handle before the exit and
  no owned process is left alive.
\<close>

theorem exit_code_by_design:
  "(startup_fails e \<longrightarrow> fst (start_system e fuel) = Some 1) \<and>
   (\<not> startup_fails e \<longrightarrow>
      fst (start_system e fuel) = None \<or> fst (start_system e fuel) = Some 0) \<and>
   (start_system e fuel = (Some code, s) \<longrightarrow>
      (code = 0 \<or> code = 1) \<and>
      ((\<exists>p. Poll p \<in> set (calls s)) \<longrightarrow> code = 0) \<and>
      (\<forall>p. owned s p \<longrightarrow> Terminate p \<in> set (calls s) \<and> status s p \<noteq> Alive))"
proof -
  have a: "startup_fails e \<longrightarrow> fst (start_system e fuel) = Some 1"
    using main_exit_1_iff[of e fuel] by (auto simp: start_system_fst exit_code_of_def)
  have b: "\<not> startup_fails e \<longrightarrow>
      fst (start_system e fuel) = None \<or> fst (start_system e fuel) = Some 0"
  proof
    assume "\<not> startup_fails e"
    then have "fst (main e fuel init) \<noteq> Some (Inl (SystemExit 1))"
      using main_exit_1_iff[of e fuel] by blast
    with main_result[of e fuel]
    have "fst (main e fuel init) = None \<or> fst (main e fuel init) = Some (Inr ()) \<or>
          fst (main e fuel init) = Some (Inl (SystemExit 0))" by blast
    then show "fst (start_system e fuel) = None \<or> fst (start_system e fuel) = Some 0"
      by (auto simp: start_system_fst exit_code_of_def)
  qed
  have c: "start_system e fuel = (Some code, s) \<longrightarrow>
      (code = 0 \<or> code = 1) \<and>
      ((\<exists>p. Poll p \<in> set (calls s)) \<longrightarrow> code = 0) \<and>
      (\<forall>p. owned s p \<longrightarrow> Terminate p \<in> set (calls s) \<and> status s p \<noteq> Alive)"
    using exit_code_ended_run by blast
  from a b c show ?thesis by blast
qed

theorem exit_code_by_design_witness:
  "startup_fails env_never_ready \<and> fst (start_system env_never_ready 3) = Some 1 \<and>
   startup_fails env_frontend_spawn_error \<and> fst (start_system env_frontend_spawn_error 3) = Some 1 \<and>
   \<not> startup_fails env_backend_dies \<and>
   start_system env_backend_dies 1 = (Some 0, snd (start_system env_backend_dies 1)) \<and>
   Terminate Backend \<in> set (calls (snd (start_system env_backend_dies 1))) \<and>
   status (snd (start_system env_backend_dies 1)) Backend \<noteq> Alive"
proof -
  have f1: "startup_fails env_never_ready"
    by (simp add: startup_fails_def polls_time_out_def env_never_ready_def env_ok_def)
  have f2: "startup_fails env_frontend_spawn_error"
    by (simp add: startup_fails_def env_frontend_spawn_error_def env_ok_def)
  have "\<not> polls_time_out env_backend_dies"
    unfolding polls_time_out_def by (rule notI, drule bspec[of _ _ 0])
      (simp_all add: env_backend_dies_def env_ok_def)
  then have f3: "\<not> startup_fails env_backend_dies"
    by (simp add: startup_fails_def env_backend_dies_def env_ok_def)
  have f: "fst (start_system env_backend_dies 1) = Some 0" by code_simp
  then have h: "start_system env_backend_dies 1 = (Some 0, snd (start_system env_backend_dies 1))"
    by (metis prod.collapse)
  have o: "owned (snd (start_system env_backend_dies 1)) Backend" by code_simp
  note T1 = exit_code_by_design[of env_never_ready 3]
  note T2 = exit_code_by_design[of env_frontend_spawn_error 3]
  note T3 = exit_code_by_design[of env_backend_dies 1 0 "snd (start_system env_backend_dies 1)"]
  from T1 f1 have r1: "fst (start_system env_never_ready 3) = Some 1" by blast
  from T2 f2 have r2: "fst (start_system env_frontend_spawn_error 3) = Some 1" by blast
  from T3 h o have r3: "Terminate Backend \<in> set (calls (snd (start_system env_backend_dies 1))) \<and>
   status (snd (start_system env_backend_dies 1)) Backend \<noteq> Alive" by blast
  from f1 f2 f3 r1 r2 r3 h show ?thesis by blast
qed

text \<open>
  C1 as stated fails: the launcher spawns the backend and the frontend, no signal arrives,
  the backend is found exited at the first poll, the frontend and the backend are
  terminated, and the exit code is 0.
\<close>

theorem backend_exit_code_counterexample:
  "fst (start_system env_backend_dies 1) = Some 0 \<and>
   signal_at env_backend_dies 0 = None \<and> signal_at env_backend_dies 1 = None \<and>
   signal_at env_backend_dies 2 = None \<and>
   calls (snd (start_system env_backend_dies 1)) =
     [HttpGet 3, Popen Backend, Sleep 1, HttpGet 3, Popen Frontend, Sleep 3,
      Sleep 1, Poll Backend,
      Terminate Frontend, Wait Frontend 5, Terminate Backend, Wait Backend 5,
      Terminate Frontend, Wait Frontend 5, Terminate Backend, Wait Backend 5] \<and>
   ''API server stopped unexpectedly'' \<in> set (stdout (snd (start_system env_backend_dies 1)))"
  by code_simp

section \<open>The frontend starts after the backend is ready\<close>

text \<open>
  C5. In every run of either launcher, and at every point of it, a spawn of the frontend
  has been issued only after some health request of the run was answered with status 200:
  whenever the calls issued are \<open>xs\<close>, then the spawn of the frontend, then \<open>ys\<close>, one of
  the health requests in \<open>xs\<close> got a response with status 200. The backend is then either
  one the launcher spawned or one that was already running.
\<close>

theorem frontend_spawn_gated:
  "(calls (snd (start_system e fuel)) = xs @ Popen Frontend # ys \<longrightarrow>
      (\<exists>k < n_gets xs. probe e k = Response 200)) \<and>
   (calls (snd (run_dashboard e)) = xs' @ Popen Frontend # ys' \<longrightarrow>
      (\<exists>k < n_gets xs'. probe e k = Response 200))"
  using start_system_gated[of e fuel] rd_main_gated[of e]
  unfolding gated_def seen_ready_def run_dashboard_def by blast

theorem frontend_spawn_gated_witness:
  "calls (snd (start_system env_backend_dies 1)) =
     [HttpGet 3, Popen Backend, Sleep 1, HttpGet 3] @ Popen Frontend #
     [Sleep 3, Sleep 1, Poll Backend,
      Terminate Frontend, Wait Frontend 5, Terminate Backend, Wait Backend 5,
      Terminate Frontend, Wait Frontend 5, Terminate Backend, Wait Backend 5] \<and>
   (\<exists>k < n_gets [HttpGet 3, Popen Backend, Sleep 1, HttpGet 3]. probe env_backend_dies k = Response 200)"
proof -
  have c: "calls (snd (start_system env_backend_dies 1)) =
     [HttpGet 3, Popen Backend, Sleep 1, HttpGet 3] @ Popen Frontend #
     [Sleep 3, Sleep 1, Poll Backend,
      Terminate Frontend, Wait Frontend 5, Terminate Backend, Wait Backend 5,
      Terminate Frontend, Wait Frontend 5, Terminate Backend, Wait Backend 5]"
    by code_simp
  from frontend_spawn_gated[of env_backend_dies 1 "[HttpGet 3, Popen Backend, Sleep 1, HttpGet 3]"] c
  show ?thesis by blast
qed

section \<open>The polling of the backend\<close>

text \<open>
  C4. If no health request is ever answered with status 200, the backend spawn succeeds
  and no signal arrives during the polling, then after the probe made before the spawn
  the launcher makes exactly 15 polling probes, each after a sleep of one second, prints
  that the API server failed to start within 15 seconds, calls terminate on the backend
  it spawned, never spawns the frontend, and exits with code 1 (the exit hook terminates
  the backend once more, waits, and kills it if it is still alive).
\<close>

theorem startup_timeout:
  assumes "spawn e Backend = None"
    and "\<forall>k. probe e k \<noteq> Response 200"
    and "\<forall>j<15. signal_at e j = None"
  shows "fst (start_system e fuel) = Some 1 \<and>
         calls (snd (start_system e fuel)) =
           [HttpGet 3, Popen Backend] @ concat (replicate 15 [Sleep 1, HttpGet 3]) @
           [Terminate Backend] @
           [Terminate Backend, Wait Backend 5] @
           (if exits_in_grace e Backend then [] else [Kill Backend]) \<and>
         n_gets (calls (snd (start_system e fuel))) = 1 + 15 \<and>
         Popen Frontend \<notin> set (calls (snd (start_system e fuel))) \<and>
         ''API server failed to start within 15 seconds'' \<in> set (stdout (snd (start_system e fuel)))"
proof -
  let ?m = "snd (main e fuel init)"
  note M = main_init_timeout[OF assms, of fuel]
  from M have f: "fst (start_system e fuel) = Some 1"
    by (simp add: start_system_fst exit_code_of_def)
  from M have s: "snd (start_system e fuel) = cleanup e ?m" by (simp add: start_system_snd)
  have c: "calls (cleanup e ?m) = calls ?m @ [Terminate Backend, Wait Backend 5] @
           (if exits_in_grace e Backend then [] else [Kill Backend])"
    using M by (simp add: cleanup_calls_explicit stop_handle_None)
  have rep: "Popen Frontend \<notin> set (concat (replicate 15 [Sleep 1, HttpGet 3]))" by auto
  have o: "''API server failed to start within 15 seconds'' \<in> set (stdout (cleanup e ?m))"
    using M by (simp add: cleanup_stdout)
  have cc: "calls (snd (start_system e fuel)) =
           [HttpGet 3, Popen Backend] @ concat (replicate 15 [Sleep 1, HttpGet 3]) @
           [Terminate Backend] @
           [Terminate Backend, Wait Backend 5] @
           (if exits_in_grace e Backend then [] else [Kill Backend])"
    unfolding s c using M by simp
  have ng: "n_gets (calls (snd (start_system e fuel))) = 1 + 15"
    unfolding cc by simp
  have nf: "Popen Frontend \<notin> set (calls (snd (start_system e fuel)))"
    unfolding cc using rep by simp
  from f cc ng nf o s show ?thesis by simp
qed

theorem startup_timeout_witness:
  "spawn env_never_ready Backend = None \<and>
   fst (start_system env_never_ready 3) = Some 1 \<and>
   n_gets (calls (snd (start_system env_never_ready 3))) = 16 \<and>
   Popen Frontend \<notin> set (calls (snd (start_system env_never_ready 3)))"
proof -
  have a: "spawn env_never_ready Backend = None" by (simp add: env_never_ready_def env_ok_def)
  have b: "\<forall>k. probe env_never_ready k \<noteq> Response 200" by (simp add: env_never_ready_def env_ok_def)
  have c: "\<forall>j<15. signal_at env_never_ready j = None" by (simp add: env_never_ready_def env_ok_def)
  from startup_timeout[OF a b c, of 3] a show ?thesis by simp
qed

text \<open>
  C9. If the backend spawn succeeds, the probe made before the spawn and the first \<open>k - 1\<close>
  polling probes are not answered with status 200, polling probe number \<open>k\<close> is, with
  \<open>k\<close> at most 15, and no signal arrives during the polling, then the launcher makes
  exactly \<open>k\<close> polling probes, each after a sleep of one second; its next call is the spawn
  of the frontend, with no sleep in between, and it makes no health request for the rest of
  the run.
\<close>

theorem polling_stops_at_first_success:
  assumes k: "1 \<le> k" "k \<le> 15"
    and sp: "spawn e Backend = None"
    and sg: "\<forall>j<k. signal_at e j = None"
    and pr: "\<forall>j<k. probe e j \<noteq> Response 200"
    and ok: "probe e k = Response 200"
  shows "\<exists>rest. calls (snd (start_system e fuel)) =
           [HttpGet 3, Popen Backend] @ concat (replicate k [Sleep 1, HttpGet 3]) @
           Popen Frontend # rest \<and> n_gets rest = 0"
proof -
  let ?s0 = "print (replicate 50 CHR ''='') (print ''Fraud Detection System Launcher'' init)"
  let ?s1 = "log_call (HttpGet 3) ?s0"
  obtain k0 where k0: "k = Suc k0" using k(1) by (cases k) auto
  have c1: "calls ?s1 = [HttpGet 3]" by (simp add: init_def)
  have a: "\<forall>j\<le>k0. signal_at e (n_sleeps (calls ?s1) + j) = None" using sg k0 c1 by simp
  have b: "\<forall>j<k0. probe e (n_gets (calls ?s1) + j) \<noteq> Response 200" using pr k0 c1 by simp
  have c: "probe e (n_gets (calls ?s1) + k0) = Response 200" using ok k0 c1 by simp
  have d: "k0 < 15" using k(2) k0 by simp
  note T = start_api_success[OF sp a b c d]
  obtain r s2 where A: "start_api e ?s1 = (r, s2)" by (cases "start_api e ?s1") blast
  from T A have r: "r = Inr True"
    and s2: "calls s2 = [HttpGet 3, Popen Backend] @ concat (replicate k [Sleep 1, HttpGet 3])"
    using c1 k0 by simp_all
  have "probe e (n_gets (calls ?s0)) \<noteq> Response 200" using pr k(1) by (simp add: init_def)
  then have "main_api e ?s0 = (Inr (), s2)"
    using A r by (simp add: main_api_def check_api_running_eq)
  from main_after_api_ready[OF this, of fuel] obtain rest where
    rest: "calls (snd (main e fuel init)) = calls s2 @ Popen Frontend # rest" "n_gets rest = 0" by blast
  show ?thesis
  proof (cases "fst (main e fuel init)")
    case None
    then have "snd (start_system e fuel) = snd (main e fuel init)" by (simp add: start_system_snd)
    then show ?thesis using rest s2 by simp
  next
    case (Some x)
    then have f: "snd (start_system e fuel) = cleanup e (snd (main e fuel init))"
      by (simp add: start_system_snd)
    obtain zs where zs: "calls (cleanup e (snd (main e fuel init))) = calls (snd (main e fuel init)) @ zs"
      "n_gets zs = 0" using cleanup_rest_no_get by blast
    have "calls (snd (start_system e fuel)) =
           [HttpGet 3, Popen Backend] @ concat (replicate k [Sleep 1, HttpGet 3]) @
           Popen Frontend # (rest @ zs) \<and> n_gets (rest @ zs) = 0"
      unfolding f zs(1) rest(1) s2 using rest(2) zs(2) by simp
    then show ?thesis by blast
  qed
qed

theorem polling_stops_at_first_success_witness:
  "(1::nat) \<le> 3 \<and> (3::nat) \<le> 15 \<and> spawn env_ready_at_3 Backend = None \<and>
   probe env_ready_at_3 3 = Response 200 \<and>
   take 9 (calls (snd (start_system env_ready_at_3 2))) =
     [HttpGet 3, Popen Backend, Sleep 1, HttpGet 3, Sleep 1, HttpGet 3, Sleep 1, HttpGet 3,
      Popen Frontend]"
proof -
  have sp: "spawn env_ready_at_3 Backend = None" by (simp add: env_ready_at_3_def env_ok_def)
  have sg: "\<forall>j<3. signal_at env_ready_at_3 j = None" by (simp add: env_ready_at_3_def env_ok_def)
  have pr: "\<forall>j<3. probe env_ready_at_3 j \<noteq> Response 200" by (simp add: env_ready_at_3_def env_ok_def)
  have ok: "probe env_ready_at_3 3 = Response 200" by (simp add: env_ready_at_3_def env_ok_def)
  have k: "(1::nat) \<le> 3" "(3::nat) \<le> 15" by simp_all
  from polling_stops_at_first_success[OF k sp sg pr ok, of 2]
  obtain rest where "calls (snd (start_system env_ready_at_3 2)) =
     [HttpGet 3, Popen Backend] @ concat (replicate 3 [Sleep 1, HttpGet 3]) @ Popen Frontend # rest"
    by blast
  then have "take 9 (calls (snd (start_system env_ready_at_3 2))) =
     [HttpGet 3, Popen Backend, Sleep 1, HttpGet 3, Sleep 1, HttpGet 3, Sleep 1, HttpGet 3,
      Popen Frontend]" by (simp add: numeral_3_eq_3)
  with k sp ok show ?thesis by blast
qed

section \<open>Monitoring without a backend handle\<close>



end
